theory Spec2Isabelle
  imports Complex_Main "HOL-Library.Sublist"
begin

section \<open>The circuit breaker (agents/README.md, class CircuitBreaker)\<close>

text \<open>
  The breaker's state is one of three strings in the source; its counters are Python
  integers (unbounded), the time of the last failure is a reading of \<^verbatim>\<open>time.time()\<close>
  or \<^verbatim>\<open>None\<close>. Clock readings are modelled as real numbers of seconds.
\<close>

datatype CircuitState = CLOSED | OPEN | HALF_OPEN

text \<open>
  The exceptions that can cross \<^verbatim>\<open>call_with_retry\<close>. \<open>TimeoutError\<close> and
  \<open>ConnectionError\<close> are the two classes the \<^verbatim>\<open>except\<close> clause names;
  \<open>OtherError\<close> stands for every exception class outside them (authentication,
  configuration, ...), carrying its message. \<open>TypeError\<close> is what Python raises for
  \<^verbatim>\<open>float - None\<close>. The two exception classes of the repository
  (\<^verbatim>\<open>CircuitBreakerOpenException\<close>, \<^verbatim>\<open>LLMProcessingException\<close>) are not
  declared under the sources; they are taken to be classes of their own, outside
  \<open>TimeoutError\<close> and \<open>ConnectionError\<close>.
\<close>

datatype exn =
    TimeoutError
  | ConnectionError
  | CircuitBreakerOpenException string
  | LLMProcessingException string
  | TypeError
  | OtherError string

record CircuitBreaker =
  failure_threshold :: int
  recovery_timeout :: int
  failure_count :: int
  last_failure_time :: "real option"
  state :: CircuitState

definition new_CircuitBreaker :: "int \<Rightarrow> int \<Rightarrow> CircuitBreaker" where
  "new_CircuitBreaker threshold rtimeout =
     \<lparr>failure_threshold = threshold, recovery_timeout = rtimeout,
      failure_count = 0, last_failure_time = None, state = CLOSED\<rparr>"

text \<open>
  The difference \<^verbatim>\<open>time.time() - self.last_failure_time\<close> is computed in floating
  point, so it is the exact difference only up to rounding. The model does not fix
  that arithmetic: the subtraction of two clock readings, as the machine computes it,
  is a parameter \<open>sub\<close> of every function that reaches it. The comparison of the
  result with the integer \<^verbatim>\<open>recovery_timeout\<close> is exact in Python.
\<close>

type_synonym clock_sub = "real \<Rightarrow> real \<Rightarrow> real"

text \<open>
  \<^verbatim>\<open>is_open\<close> reads the clock (\<open>now\<close>), may move the breaker from \<open>OPEN\<close> to
  \<open>HALF_OPEN\<close>, and returns the answer with the new breaker. With
  \<^verbatim>\<open>last_failure_time = None\<close> the subtraction raises.
\<close>

definition is_open ::
  "clock_sub \<Rightarrow> real \<Rightarrow> CircuitBreaker \<Rightarrow> exn + (bool \<times> CircuitBreaker)" where
  "is_open sub now cb =
     (if state cb = OPEN then
        (case last_failure_time cb of
           None \<Rightarrow> Inl TypeError
         | Some t \<Rightarrow>
             if sub now t > of_int (recovery_timeout cb)
             then Inr (False, cb\<lparr>state := HALF_OPEN\<rparr>)
             else Inr (True, cb))
      else Inr (False, cb))"

definition record_success :: "CircuitBreaker \<Rightarrow> CircuitBreaker" where
  "record_success cb = cb\<lparr>failure_count := 0, state := CLOSED\<rparr>"

definition record_failure :: "real \<Rightarrow> CircuitBreaker \<Rightarrow> CircuitBreaker" where
  "record_failure now cb =
     (let cb1 = cb\<lparr>failure_count := failure_count cb + 1, last_failure_time := Some now\<rparr>
      in if failure_count cb1 \<ge> failure_threshold cb1 then cb1\<lparr>state := OPEN\<rparr> else cb1)"

text \<open>A run of the breaker: any sequence of calls of its three methods, each clock-reading
  method with the time it reads.\<close>

datatype breaker_op = IsOpen real | RecordSuccess | RecordFailure real

fun run_breaker ::
  "clock_sub \<Rightarrow> breaker_op list \<Rightarrow> CircuitBreaker \<Rightarrow> exn + CircuitBreaker" where
  "run_breaker sub [] cb = Inr cb"
| "run_breaker sub (IsOpen now # ops) cb =
     (case is_open sub now cb of Inl e \<Rightarrow> Inl e | Inr (_, cb') \<Rightarrow> run_breaker sub ops cb')"
| "run_breaker sub (RecordSuccess # ops) cb = run_breaker sub ops (record_success cb)"
| "run_breaker sub (RecordFailure now # ops) cb = run_breaker sub ops (record_failure now cb)"


section \<open>The LLM client (agents/README.md, class LLMClient)\<close>

text \<open>
  Python values as far as the client and the degradation strategy use them: a model
  configuration is a dictionary from strings to such values.
\<close>

datatype pyval =
    PyNone
  | PyBool bool
  | PyInt int
  | PyStr string
  | PyDict "(string \<times> pyval) list"

type_synonym model_config = "string \<rightharpoonup> pyval"

text \<open>
  \<^verbatim>\<open>make_llm_call\<close> is not part of the sources. It is a parameter of the model: the
  environment tells, for the k-th network call of the run, the prompt and the
  configuration used, how the call ends (a response text or an exception) and how many
  seconds it takes.
\<close>

type_synonym llm_env = "nat \<Rightarrow> string \<Rightarrow> model_config \<Rightarrow> (exn + string) \<times> real"

text \<open>What the client does to the world: network calls (with the \<^verbatim>\<open>"model"\<close> entry
  of the configuration they were made with) and sleeps (in seconds).\<close>

datatype event = NetCall "pyval option" | Sleep nat

record World =
  clock :: real
  calls :: nat
  trace :: "event list"

record LLMClient =
  retry_attempts :: int
  timeout :: int
  circuit_breaker :: CircuitBreaker

definition new_LLMClient :: "int \<Rightarrow> int \<Rightarrow> LLMClient" where
  "new_LLMClient attempts tmo =
     \<lparr>retry_attempts = attempts, timeout = tmo, circuit_breaker = new_CircuitBreaker 5 60\<rparr>"

definition make_llm_call ::
  "llm_env \<Rightarrow> string \<Rightarrow> model_config \<Rightarrow> World \<Rightarrow> (exn + string) \<times> World" where
  "make_llm_call env prompt cfg w =
     (case env (calls w) prompt cfg of
        (r, d) \<Rightarrow>
          (r, w\<lparr>clock := clock w + d, calls := calls w + 1,
                trace := trace w @ [NetCall (cfg ''model'')]\<rparr>))"

definition sleep :: "nat \<Rightarrow> World \<Rightarrow> World" where
  "sleep secs w = w\<lparr>clock := clock w + real secs, trace := trace w @ [Sleep secs]\<rparr>"

text \<open>\<^verbatim>\<open>config.get("fallback_model")\<close> is \<^verbatim>\<open>None\<close> when the key is absent.\<close>

definition fallback_config :: "model_config \<Rightarrow> model_config" where
  "fallback_config cfg =
     cfg(''model'' \<mapsto> (case cfg ''fallback_model'' of None \<Rightarrow> PyNone | Some v \<Rightarrow> v))"

definition try_fallback_model ::
  "llm_env \<Rightarrow> string \<Rightarrow> model_config \<Rightarrow> LLMClient \<times> World
     \<Rightarrow> (exn + string) \<times> LLMClient \<times> World" where
  "try_fallback_model env prompt cfg s =
     (case s of (c, w) \<Rightarrow>
        (case make_llm_call env prompt (fallback_config cfg) w of (r, w1) \<Rightarrow> (r, c, w1)))"

text \<open>The exceptions the \<^verbatim>\<open>except (TimeoutError, ConnectionError)\<close> clause catches.\<close>

fun transient :: "exn \<Rightarrow> bool" where
  "transient TimeoutError = True"
| "transient ConnectionError = True"
| "transient _ = False"

text \<open>
  The body of the \<^verbatim>\<open>try\<close> block of one attempt: ask the breaker, raise when it is
  open, otherwise call the model and record the success. An exception of the call, or
  of \<^verbatim>\<open>is_open\<close>, leaves the block as \<open>Inl\<close>.
\<close>

definition attempt_body ::
  "clock_sub \<Rightarrow> llm_env \<Rightarrow> string \<Rightarrow> model_config \<Rightarrow> LLMClient \<times> World
     \<Rightarrow> (exn + string) \<times> LLMClient \<times> World" where
  "attempt_body sub env prompt cfg s =
     (case s of (c, w) \<Rightarrow>
        (case is_open sub (clock w) (circuit_breaker c) of
           Inl e \<Rightarrow> (Inl e, c, w)
         | Inr (opened, cb) \<Rightarrow>
             let c1 = c\<lparr>circuit_breaker := cb\<rparr> in
             if opened
             then (Inl (CircuitBreakerOpenException ''LLM service unavailable''), c1, w)
             else
               (case make_llm_call env prompt cfg w of
                  (Inl e, w1) \<Rightarrow> (Inl e, c1, w1)
                | (Inr response, w1) \<Rightarrow>
                    (Inr response, c1\<lparr>circuit_breaker := record_success cb\<rparr>, w1))))"

text \<open>
  The \<^verbatim>\<open>for attempt in range(self.retry_attempts)\<close> loop, over the attempts still to
  run. An exception outside the two caught classes propagates as it is; the handler
  records the failure and either calls the fallback model (last attempt) or sleeps
  \<open>2 ^ attempt\<close> seconds and goes on. When the range is exhausted without a return,
  the statement after the loop raises.
\<close>

fun for_attempts ::
  "clock_sub \<Rightarrow> llm_env \<Rightarrow> string \<Rightarrow> model_config \<Rightarrow> nat list \<Rightarrow> LLMClient \<times> World
     \<Rightarrow> (exn + string) \<times> LLMClient \<times> World" where
  "for_attempts sub env prompt cfg [] s =
     (Inl (LLMProcessingException ''All retry attempts failed''), s)"
| "for_attempts sub env prompt cfg (attempt # rest) s =
     (case attempt_body sub env prompt cfg s of
        (Inr response, s1) \<Rightarrow> (Inr response, s1)
      | (Inl e, c1, w1) \<Rightarrow>
          if transient e then
            let c2 = c1\<lparr>circuit_breaker :=
                         record_failure (clock w1) (circuit_breaker c1)\<rparr> in
            if int attempt = retry_attempts c2 - 1
            then try_fallback_model env prompt cfg (c2, w1)
            else for_attempts sub env prompt cfg rest (c2, sleep (2 ^ attempt) w1)
          else (Inl e, c1, w1))"

definition call_with_retry ::
  "clock_sub \<Rightarrow> llm_env \<Rightarrow> string \<Rightarrow> model_config \<Rightarrow> LLMClient \<times> World
     \<Rightarrow> (exn + string) \<times> LLMClient \<times> World" where
  "call_with_retry sub env prompt cfg s =
     for_attempts sub env prompt cfg [0..<nat (retry_attempts (fst s))] s"

text \<open>
  The full course of a run in which every attempt fails with a caught exception: a
  primary call and a sleep of \<open>2 ^ attempt\<close> seconds for every attempt but the last,
  then the last primary call and the call of the fallback model. \<open>schedule\<close> is the
  same course told attempt by attempt, as the loop runs it.
\<close>

fun schedule :: "model_config \<Rightarrow> int \<Rightarrow> nat list \<Rightarrow> event list" where
  "schedule cfg n [] = []"
| "schedule cfg n (a # rest) =
     NetCall (cfg ''model'') #
       (if int a = n - 1 then [NetCall (fallback_config cfg ''model'')]
        else Sleep (2 ^ a) # schedule cfg n rest)"

definition backoff_schedule :: "model_config \<Rightarrow> nat \<Rightarrow> event list" where
  "backoff_schedule cfg n =
     (if n = 0 then []
      else concat (map (\<lambda>a. [NetCall (cfg ''model''), Sleep (2 ^ a)]) [0..<n - 1])
           @ [NetCall (cfg ''model''), NetCall (fallback_config cfg ''model'')])"

fun is_call :: "event \<Rightarrow> bool" where
  "is_call (NetCall _) = True"
| "is_call (Sleep _) = False"

fun slept :: "event \<Rightarrow> nat" where
  "slept (NetCall _) = 0"
| "slept (Sleep n) = n"

definition ncalls :: "event list \<Rightarrow> nat" where
  "ncalls evs = length (filter is_call evs)"

definition sleeps :: "event list \<Rightarrow> nat" where
  "sleeps evs = sum_list (map slept evs)"

text \<open>World \<open>w'\<close> is world \<open>w\<close> after the events \<open>evs\<close>; the clock is bounded
  when \<open>B\<close> holds, which stands for "no call takes more than \<open>T\<close> seconds".\<close>

definition accounted :: "bool \<Rightarrow> real \<Rightarrow> World \<Rightarrow> event list \<Rightarrow> World \<Rightarrow> bool" where
  "accounted B T w evs w' \<longleftrightarrow>
     trace w' = trace w @ evs \<and> calls w' = calls w + ncalls evs \<and>
     (B \<longrightarrow> clock w' \<le> clock w + T * real (ncalls evs) + real (sleeps evs))"

text \<open>What holds of every breaker that the three methods can produce from a new one: away
  from \<open>CLOSED\<close> the counter has reached the threshold and a failure time is set.\<close>

definition breaker_inv :: "CircuitBreaker \<Rightarrow> bool" where
  "breaker_inv cb \<longleftrightarrow>
     (state cb = CLOSED \<or>
      (failure_count cb \<ge> failure_threshold cb \<and> last_failure_time cb \<noteq> None))"

text \<open>What \<open>f\<close> attempts, from attempt \<open>m\<close> on, leave in the trace when each of them
  fails with a caught exception and is followed by its sleep: a primary call and a
  sleep of \<open>2 ^ attempt\<close> seconds.\<close>

definition failed_attempts :: "model_config \<Rightarrow> nat \<Rightarrow> nat \<Rightarrow> event list" where
  "failed_attempts cfg m f =
     concat (map (\<lambda>a. [NetCall (cfg ''model''), Sleep (2 ^ a)]) [m..<m + f])"

text \<open>
  The course of the loop over the attempts \<open>m, ..., n - 1\<close>, from client \<open>c\<close> and
  world \<open>w\<close> to the result \<open>r\<close>, client \<open>c'\<close> and world \<open>w'\<close>: the first
  \<open>f\<close> of these attempts fail with a caught exception, each counted on the breaker
  and followed by its sleep; then either the breaker refuses the next attempt (or
  \<^verbatim>\<open>is_open\<close> raises), or the next primary call ends the loop with an answer or
  with an exception that is not caught, or, all attempts having failed, the call of the
  fallback model ends it.
\<close>

definition run_shape ::
  "clock_sub \<Rightarrow> llm_env \<Rightarrow> string \<Rightarrow> model_config \<Rightarrow> nat \<Rightarrow> nat
     \<Rightarrow> LLMClient \<Rightarrow> World \<Rightarrow> (exn + string) \<Rightarrow> LLMClient \<Rightarrow> World \<Rightarrow> nat \<Rightarrow> bool" where
  "run_shape sub env p cfg n m c w r c' w' f \<longleftrightarrow>
     m + f \<le> n \<and> retry_attempts c' = retry_attempts c \<and>
     (\<forall>k<f. \<exists>e. fst (env (calls w + k) p cfg) = Inl e \<and> transient e) \<and>
     ((m + f < n \<and> trace w' = trace w @ failed_attempts cfg m f \<and> calls w' = calls w + f \<and>
       failure_count (circuit_breaker c') = failure_count (circuit_breaker c) + int f \<and>
       (r = Inl (CircuitBreakerOpenException ''LLM service unavailable'') \<and>
          is_open sub (clock w') (circuit_breaker c') = Inr (True, circuit_breaker c') \<or>
        r = Inl TypeError \<and> is_open sub (clock w') (circuit_breaker c') = Inl TypeError)) \<or>
      (m + f < n \<and>
       trace w' = trace w @ failed_attempts cfg m f @ [NetCall (cfg ''model'')] \<and>
       calls w' = calls w + f + 1 \<and> r = fst (env (calls w + f) p cfg) \<and>
       ((\<exists>resp. r = Inr resp) \<and> state (circuit_breaker c') = CLOSED \<and>
          failure_count (circuit_breaker c') = 0 \<or>
        (\<exists>e. r = Inl e \<and> \<not> transient e) \<and>
          failure_count (circuit_breaker c') = failure_count (circuit_breaker c) + int f)) \<or>
      (m + f = n \<and> 0 < f \<and>
       trace w' = trace w @ failed_attempts cfg m (f - 1)
                    @ [NetCall (cfg ''model''), NetCall (fallback_config cfg ''model'')] \<and>
       calls w' = calls w + f + 1 \<and> r = fst (env (calls w + f) p (fallback_config cfg)) \<and>
       failure_count (circuit_breaker c') = failure_count (circuit_breaker c) + int f \<and>
       (\<exists>u b. circuit_breaker c' = record_failure u b)))"

subsection \<open>Example environments\<close>

text \<open>Concrete inputs for the examples below: a configuration with a primary and a
  fallback model, a fresh world, and four behaviours of the external service.\<close>

definition example_config :: model_config where
  "example_config =
     [''model'' \<mapsto> PyStr ''claude-3-5-sonnet-20241022'',
      ''fallback_model'' \<mapsto> PyStr ''claude-3-haiku-20240307'']"

definition world0 :: World where
  "world0 = \<lparr>clock = 0, calls = 0, trace = []\<rparr>"

text \<open>Every call runs into its time limit of 60 seconds.\<close>

definition env_timeouts :: llm_env where
  "env_timeouts k p g = (Inl TimeoutError, 60)"

text \<open>Every call answers after two seconds.\<close>

definition env_answers :: "string \<Rightarrow> llm_env" where
  "env_answers r k p g = (Inr r, 2)"

text \<open>Every call is rejected at once for its credentials.\<close>

definition env_rejects :: llm_env where
  "env_rejects k p g = (Inl (OtherError ''401 invalid x-api-key''), 1)"

text \<open>The primary model times out; the fallback model answers.\<close>

definition env_fallback_answers :: "string \<Rightarrow> llm_env" where
  "env_fallback_answers r k p g =
     (if g ''model'' = Some (PyStr ''claude-3-haiku-20240307'')
      then (Inr r, 2) else (Inl TimeoutError, 60))"

section \<open>Graceful degradation (agents/README.md, class AgentDegradationStrategy)\<close>

text \<open>
  \<^verbatim>\<open>extract_plain_text\<close> is not part of the sources; it is a parameter, and may raise.
  The dictionary is kept in the order the source writes it.
\<close>

definition cv_parser_fallback :: "(string \<Rightarrow> exn + string) \<Rightarrow> string \<Rightarrow> exn + pyval" where
  "cv_parser_fallback extract_plain_text file_content =
     (case extract_plain_text file_content of
        Inl e \<Rightarrow> Inl e
      | Inr text \<Rightarrow>
          Inr (PyDict
            [(''success'', PyBool True),
             (''degraded'', PyBool True),
             (''data'', PyDict
                [(''raw_text'', PyStr text),
                 (''message'',
                  PyStr ''Limited parsing available - LLM service unavailable'')])]))"

text \<open>Looking a key up in a Python dictionary value.\<close>

fun py_get :: "pyval \<Rightarrow> string \<Rightarrow> pyval option" where
  "py_get (PyDict kvs) k = map_of kvs k"
| "py_get _ k = None"

section \<open>The frontend analytics service (class AnalyticsService)\<close>

datatype jsval = JNull | JStr string | JNum int | JObj "(string \<times> jsval) list"

text \<open>What \<^verbatim>\<open>trackEvent\<close> reads from the browser when it is called.\<close>

record Browser =
  userAgent :: string
  innerWidth :: int
  innerHeight :: int
  href :: string
  title :: string
  isoTime :: string

record eventData =
  event_type :: string
  event_action :: string
  event_label :: "string option"
  element_id :: "string option"
  metadata :: "string \<rightharpoonup> jsval"
  page_url :: string
  page_title :: string
  timestamp :: string

datatype console_entry =
    LogEvent string string "string option"
  | LogBatch nat
  | WarnFailed

record AnalyticsService =
  sessionId :: string
  userId :: "string option"
  eventQueue :: "eventData list"
  isOnline :: bool
  console :: "console_entry list"

text \<open>
  \<^verbatim>\<open>flushEventQueue\<close>. The model returns, beside the new state, the batch the call
  took out of the queue (the local \<^verbatim>\<open>eventsToSend\<close>; empty on the early return).
  The delivery step in the \<^verbatim>\<open>try\<close> block prints the size of the batch; \<open>throws\<close>
  tells whether that step throws, in which case the \<^verbatim>\<open>catch\<close> block warns.
\<close>

definition flushEventQueue ::
  "bool \<Rightarrow> AnalyticsService \<Rightarrow> eventData list \<times> AnalyticsService" where
  "flushEventQueue throws s =
     (if \<not> isOnline s \<or> length (eventQueue s) = 0 then ([], s)
      else
        let eventsToSend = eventQueue s;
            s1 = s\<lparr>eventQueue := []\<rparr>
        in if throws then (eventsToSend, s1\<lparr>console := console s1 @ [WarnFailed]\<rparr>)
           else (eventsToSend,
                 s1\<lparr>console := console s1 @ [LogBatch (length eventsToSend)]\<rparr>))"

text \<open>The object \<^verbatim>\<open>trackEvent\<close> builds: the caller's metadata (none when
  \<^verbatim>\<open>null\<close>), overridden by the three entries the service adds.\<close>

definition make_eventData ::
  "Browser \<Rightarrow> string \<Rightarrow> string \<Rightarrow> string \<Rightarrow> string option \<Rightarrow> string option
     \<Rightarrow> (string \<rightharpoonup> jsval) option \<Rightarrow> eventData" where
  "make_eventData b sid eventType eventAction eventLabel elementId meta =
     \<lparr>event_type = eventType, event_action = eventAction,
      event_label = eventLabel, element_id = elementId,
      metadata =
        (case meta of None \<Rightarrow> Map.empty | Some m \<Rightarrow> m)
          (''user_agent'' \<mapsto> JStr (userAgent b),
           ''viewport'' \<mapsto> JObj [(''width'', JNum (innerWidth b)),
                                   (''height'', JNum (innerHeight b))],
           ''session_id'' \<mapsto> JStr sid),
      page_url = href b, page_title = title b, timestamp = isoTime b\<rparr>"

text \<open>The arguments of one \<^verbatim>\<open>trackEvent\<close> call, with the browser as it is then.\<close>

record track_args =
  browser :: Browser
  eventType :: string
  eventAction :: string
  eventLabel :: "string option"
  elementId :: "string option"
  meta :: "(string \<rightharpoonup> jsval) option"

definition event_of :: "string \<Rightarrow> track_args \<Rightarrow> eventData" where
  "event_of sid a =
     make_eventData (browser a) sid (eventType a) (eventAction a) (eventLabel a)
       (elementId a) (meta a)"

definition trackEvent ::
  "bool \<Rightarrow> track_args \<Rightarrow> AnalyticsService \<Rightarrow> eventData list \<times> AnalyticsService" where
  "trackEvent throws a s =
     (let s1 = s\<lparr>eventQueue := eventQueue s @ [event_of (sessionId s) a]\<rparr>;
          (batch, s2) =
            (if isOnline s1 \<and> length (eventQueue s1) \<ge> 5
             then flushEventQueue throws s1 else ([], s1))
      in (batch,
          s2\<lparr>console := console s2 @ [LogEvent (eventType a) (eventAction a) (eventLabel a)]\<rparr>))"

text \<open>
  What can happen to the service: a \<^verbatim>\<open>trackEvent\<close> call, a flush (timer or page
  unload), the browser going online (which flushes) or offline. Flushes carry whether
  their delivery step throws. A run returns the batches taken, in order.
\<close>

datatype analytics_op =
    Track bool track_args
  | Flush bool
  | GoOnline bool
  | GoOffline

fun analytics_step ::
  "analytics_op \<Rightarrow> AnalyticsService \<Rightarrow> eventData list \<times> AnalyticsService" where
  "analytics_step (Track throws a) s = trackEvent throws a s"
| "analytics_step (Flush throws) s = flushEventQueue throws s"
| "analytics_step (GoOnline throws) s = flushEventQueue throws (s\<lparr>isOnline := True\<rparr>)"
| "analytics_step GoOffline s = ([], s\<lparr>isOnline := False\<rparr>)"

fun run_analytics ::
  "analytics_op list \<Rightarrow> AnalyticsService \<Rightarrow> eventData list list \<times> AnalyticsService" where
  "run_analytics [] s = ([], s)"
| "run_analytics (op # ops) s =
     (case analytics_step op s of
        (batch, s1) \<Rightarrow>
          (case run_analytics ops s1 of (batches, s2) \<Rightarrow> (batch # batches, s2)))"

text \<open>The events a run tracks, in order.\<close>

fun tracked :: "string \<Rightarrow> analytics_op list \<Rightarrow> eventData list" where
  "tracked sid [] = []"
| "tracked sid (Track throws a # ops) = event_of sid a # tracked sid ops"
| "tracked sid (_ # ops) = tracked sid ops"

subsection \<open>Example service\<close>

text \<open>A service as the constructor sets its fields on an online browser, and the
  arguments of a click on a button.\<close>

definition service0 :: AnalyticsService where
  "service0 =
     \<lparr>sessionId = ''session_1700000000000_k3j9x2m1q'', userId = None, eventQueue = [],
      isOnline = True, console = []\<rparr>"

definition example_browser :: Browser where
  "example_browser =
     \<lparr>userAgent = ''Mozilla/5.0'', innerWidth = 1280, innerHeight = 720,
      href = ''http://localhost:3000/dashboard'', title = ''CV Analyzer'',
      isoTime = ''2025-01-01T00:00:00.000Z''\<rparr>"

definition click_args :: "string \<Rightarrow> track_args" where
  "click_args button =
     \<lparr>browser = example_browser, eventType = ''click'', eventAction = ''button_click'',
      eventLabel = None, elementId = Some button, meta = None\<rparr>"

section \<open>Response processing and validation\<close>

text \<open>
  The modules that clean, parse and validate a response (\<^verbatim>\<open>agent_llm_core.py\<close>,
  \<^verbatim>\<open>agent_validation.py\<close>) are named by the documentation but are not among the
  sources. The definitions of this section follow the specification's words.
\<close>

definition fence :: string where
  "fence = [CHR 0x60, CHR 0x60, CHR 0x60]"

definition is_space :: "char \<Rightarrow> bool" where
  "is_space ch \<longleftrightarrow>
     ch \<in> set [CHR '' '', CHR 0x09, CHR 0x0A, CHR 0x0B, CHR 0x0C, CHR 0x0D]"

definition trim :: "string \<Rightarrow> string" where
  "trim s = rev (dropWhile is_space (rev (dropWhile is_space s)))"

text \<open>
  Modelled from the spec: the cleaning step of response processing is missing from the
  sources. "Strip wrapping code-fence markers": an opening marker (three backquotes,
  with or without the language tag) at the start and a closing marker at the end are
  removed, with the white space around them.
\<close>

definition strip_code_fences :: "string \<Rightarrow> string" where
  "strip_code_fences s =
     (let t = trim s;
          t1 = (if prefix (fence @ ''json'') t then drop (length (fence @ ''json'')) t
                else if prefix fence t then drop (length fence) t
                else t);
          t2 = (if suffix fence t1 then take (length t1 - length fence) t1 else t1)
      in trim t2)"

text \<open>
  Modelled from the spec: response processing is missing from the sources. It strips
  the fence markers and then parses; the parser (strict parse followed by the repair
  heuristics, \<open>None\<close> when both fail) is a parameter.
\<close>

definition process_response :: "(string \<Rightarrow> 'a option) \<Rightarrow> string \<Rightarrow> 'a option" where
  "process_response parse s = parse (strip_code_fences s)"

text \<open>A JSON text wrapped in a fenced block with the language tag.\<close>

definition wrap_json_fence :: "string \<Rightarrow> string" where
  "wrap_json_fence j = fence @ ''json'' @ [CHR 0x0A] @ j @ [CHR 0x0A] @ fence"

text \<open>Field values of a parse result are strings or lists of strings; each kind has its
  empty default.\<close>

datatype field_value = Text string | Items "string list"

datatype field_kind = TextField | ListField

fun empty_default :: "field_kind \<Rightarrow> field_value" where
  "empty_default TextField = Text []"
| "empty_default ListField = Items []"

definition missing_note :: "string \<Rightarrow> string" where
  "missing_note f = ''Missing required field: '' @ f"

record Validated =
  result_fields :: "string \<rightharpoonup> field_value"
  parsing_notes :: "string list"
  completeness :: rat

text \<open>
  Modelled from the spec: the validation step is missing from the sources. It walks the
  required-field list; a field the response lacks is filled with the empty default of
  its kind and noted.
\<close>

fun fill_missing ::
  "(string \<Rightarrow> field_kind) \<Rightarrow> string list
     \<Rightarrow> (string \<rightharpoonup> field_value) \<times> string list
     \<Rightarrow> (string \<rightharpoonup> field_value) \<times> string list" where
  "fill_missing kind_of [] acc = acc"
| "fill_missing kind_of (f # fs) (obj, notes) =
     (case obj f of
        Some v \<Rightarrow> fill_missing kind_of fs (obj, notes)
      | None \<Rightarrow>
          fill_missing kind_of fs
            (obj(f \<mapsto> empty_default (kind_of f)), notes @ [missing_note f]))"

text \<open>Modelled from the spec: the number of required fields the response has.\<close>

definition fields_present :: "(string \<rightharpoonup> field_value) \<Rightarrow> string list \<Rightarrow> nat" where
  "fields_present response required = length (filter (\<lambda>f. response f \<noteq> None) required)"

text \<open>
  Modelled from the spec: validation of a parsed response against the required-field
  list, with the completeness score "fields present / fields expected". The spec does
  not say what the score of an empty list is; the model gives \<open>None\<close> there.
\<close>

definition validate_response ::
  "(string \<Rightarrow> field_kind) \<Rightarrow> (string \<rightharpoonup> field_value) \<Rightarrow> string list \<Rightarrow> Validated option" where
  "validate_response kind_of response required =
     (if required = [] then None
      else
        (case fill_missing kind_of required (response, []) of
           (obj, notes) \<Rightarrow>
             Some \<lparr>result_fields = obj, parsing_notes = notes,
                   completeness =
                     of_nat (fields_present response required) / of_nat (length required)\<rparr>))"

section \<open>Properties of the circuit breaker\<close>

lemma breaker_inv_new: "breaker_inv (new_CircuitBreaker th rt)"
  by (simp add: breaker_inv_def new_CircuitBreaker_def)

lemma breaker_inv_success: "breaker_inv (record_success cb)"
  by (simp add: breaker_inv_def record_success_def)

lemma breaker_inv_failure: "breaker_inv cb \<Longrightarrow> breaker_inv (record_failure now cb)"
  by (auto simp: breaker_inv_def record_failure_def Let_def)

lemma is_open_inv:
  assumes "breaker_inv cb"
  shows "\<exists>r cb'. is_open sub now cb = Inr (r, cb') \<and> breaker_inv cb'
           \<and> failure_threshold cb' = failure_threshold cb"
  using assms by (auto simp: breaker_inv_def is_open_def split: option.splits)

lemma is_open_count: "is_open sub now cb = Inr (r, cb') \<Longrightarrow> failure_count cb' = failure_count cb"
  by (auto simp: is_open_def split: if_splits option.splits)

lemma run_breaker_inv:
  "breaker_inv cb \<Longrightarrow> \<exists>cb'. run_breaker sub ops cb = Inr cb' \<and> breaker_inv cb'"
proof (induction sub ops cb rule: run_breaker.induct)
  case (1 sub cb)
  then show ?case by simp
next
  case (2 sub now ops cb)
  from is_open_inv [OF "2.prems", where sub = sub and now = now] obtain r cb1
    where s: "is_open sub now cb = Inr (r, cb1)" and i: "breaker_inv cb1" by blast
  from "2.IH" [OF s refl i] s show ?case by simp
next
  case (3 sub ops cb)
  then show ?case by (simp add: breaker_inv_success)
next
  case (4 sub now ops cb)
  then show ?case by (simp add: breaker_inv_failure)
qed

lemma record_failure_open_iff:
  "breaker_inv cb \<Longrightarrow>
     state (record_failure now cb) = OPEN \<longleftrightarrow>
       failure_count (record_failure now cb) \<ge> failure_threshold (record_failure now cb)"
  by (auto simp: breaker_inv_def record_failure_def Let_def)

text \<open>
  Claim C9. In every breaker that a run of the three methods produces from a new one
  (no such run raises): \<^verbatim>\<open>is_open\<close> never changes the failure counter; in state
  \<open>HALF_OPEN\<close> the counter is at or above the threshold, so one more recorded failure
  puts the breaker back to \<open>OPEN\<close>; and after any recorded failure the state is
  \<open>OPEN\<close> exactly when the counter has reached the threshold.
\<close>

theorem half_open_failure_reopens:
  "\<exists>cb. run_breaker sub ops (new_CircuitBreaker th rt) = Inr cb \<and>
     (\<forall>t r cb'. is_open sub t cb = Inr (r, cb') \<longrightarrow> failure_count cb' = failure_count cb) \<and>
     (state cb = HALF_OPEN \<longrightarrow>
        failure_count cb \<ge> failure_threshold cb \<and> state (record_failure now cb) = OPEN) \<and>
     (state (record_failure now cb) = OPEN \<longleftrightarrow>
        failure_count (record_failure now cb) \<ge> failure_threshold (record_failure now cb))"
proof -
  from run_breaker_inv [OF breaker_inv_new] obtain cb
    where r: "run_breaker sub ops (new_CircuitBreaker th rt) = Inr cb" and i: "breaker_inv cb"
    by blast
  have a: "\<forall>t r cb'. is_open sub t cb = Inr (r, cb') \<longrightarrow> failure_count cb' = failure_count cb"
    using is_open_count by blast
  have b: "state cb = HALF_OPEN \<longrightarrow>
        failure_count cb \<ge> failure_threshold cb \<and> state (record_failure now cb) = OPEN"
    using i by (auto simp: breaker_inv_def record_failure_def Let_def)
  from r a b record_failure_open_iff [OF i] show ?thesis by blast
qed

text \<open>The breaker with threshold 2 after two failures and a check past the cool-down: it is
  \<open>HALF_OPEN\<close> with counter 2, and the next failure reopens it.\<close>

theorem half_open_failure_reopens_witness:
  "\<exists>cb. run_breaker (-) [RecordFailure 1, RecordFailure 2, IsOpen 100] (new_CircuitBreaker 2 60) = Inr cb \<and>
     state cb = HALF_OPEN \<and> failure_count cb = 2 \<and> state (record_failure 101 cb) = OPEN"
proof -
  from half_open_failure_reopens [of "(-)" "[RecordFailure 1, RecordFailure 2, IsOpen 100]" 2 60 101]
  obtain cb where
    r: "run_breaker (-) [RecordFailure 1, RecordFailure 2, IsOpen 100] (new_CircuitBreaker 2 60) = Inr cb"
    and h: "state cb = HALF_OPEN \<longrightarrow>
        failure_count cb \<ge> failure_threshold cb \<and> state (record_failure 101 cb) = OPEN"
    by blast
  from r have e: "cb = \<lparr>failure_threshold = 2, recovery_timeout = 60, failure_count = 2,
        last_failure_time = Some 2, state = HALF_OPEN\<rparr>"
    by (simp add: new_CircuitBreaker_def record_failure_def is_open_def Let_def)
  then have s: "state cb = HALF_OPEN" and c: "failure_count cb = 2" by simp_all
  from h s r c show ?thesis by blast
qed

section \<open>Properties of the retry loop\<close>

lemma attempt_body_cases:
  assumes "attempt_body sub env p cfg (c, w) = (r, c1, w1)"
  shows "retry_attempts c1 = retry_attempts c \<and> timeout c1 = timeout c \<and>
         ((w1 = w \<and> (\<exists>e. r = Inl e \<and> \<not> transient e)) \<or>
          (w1 = snd (make_llm_call env p cfg w) \<and> r = fst (env (calls w) p cfg)))"
  using assms
  by (auto simp: attempt_body_def make_llm_call_def is_open_def Let_def
           split: sum.splits prod.splits if_splits option.splits)

lemma for_attempts_params:
  "for_attempts sub env p cfg as (c, w) = (r, c', w') \<Longrightarrow>
     retry_attempts c' = retry_attempts c \<and> timeout c' = timeout c"
proof (induction as arbitrary: c w)
  case Nil
  then show ?case by simp
next
  case (Cons a as)
  obtain r1 c1 w1 where b: "attempt_body sub env p cfg (c, w) = (r1, c1, w1)"
    by (metis prod_cases3)
  note k = attempt_body_cases [OF b]
  show ?case
  proof (cases r1)
    case (Inr resp)
    with Cons.prems b k show ?thesis by simp
  next
    case (Inl e)
    show ?thesis
    proof (cases "transient e")
      case False
      with Cons.prems b k Inl show ?thesis by simp
    next
      case True
      let ?c2 = "c1\<lparr>circuit_breaker := record_failure (clock w1) (circuit_breaker c1)\<rparr>"
      show ?thesis
      proof (cases "int a = retry_attempts c1 - 1")
        case True
        with Cons.prems b k Inl \<open>transient e\<close> show ?thesis
          by (auto simp: try_fallback_model_def split: prod.splits)
      next
        case False
        with Cons.prems b Inl \<open>transient e\<close>
        have "for_attempts sub env p cfg as (?c2, sleep (2 ^ a) w1) = (r, c', w')" by simp
        from Cons.IH [OF this] k show ?thesis by simp
      qed
    qed
  qed
qed

lemma accounted_refl: "accounted B T w [] w"
  by (simp add: accounted_def ncalls_def sleeps_def)

lemma accounted_trans:
  "accounted B T w evs1 w1 \<Longrightarrow> accounted B T w1 evs2 w2 \<Longrightarrow>
     accounted B T w (evs1 @ evs2) w2"
  by (auto simp: accounted_def ncalls_def sleeps_def algebra_simps)

lemma accounted_call:
  assumes "B \<longrightarrow> (\<forall>k q g. snd (env k q g) \<le> T)"
  shows "accounted B T w [NetCall (cfg ''model'')] (snd (make_llm_call env p cfg w))"
proof -
  have "B \<longrightarrow> snd (env (calls w) p cfg) \<le> T" using assms by blast
  then show ?thesis
    by (cases "env (calls w) p cfg")
       (simp add: accounted_def ncalls_def sleeps_def make_llm_call_def)
qed

lemma accounted_sleep: "accounted B T w [Sleep n] (sleep n w)"
  by (simp add: accounted_def ncalls_def sleeps_def sleep_def)

lemma for_attempts_step:
  assumes "for_attempts sub env p cfg (a # as) (c, w) = res"
  obtains
    (returned) resp c1 w1 where "attempt_body sub env p cfg (c, w) = (Inr resp, c1, w1)"
      and "res = (Inr resp, c1, w1)"
  | (fatal) e c1 w1 where "attempt_body sub env p cfg (c, w) = (Inl e, c1, w1)"
      and "\<not> transient e" and "res = (Inl e, c1, w1)"
  | (fallback) e c1 w1 where "attempt_body sub env p cfg (c, w) = (Inl e, c1, w1)"
      and "transient e" and "int a = retry_attempts c1 - 1"
      and "res = try_fallback_model env p cfg
             (c1\<lparr>circuit_breaker := record_failure (clock w1) (circuit_breaker c1)\<rparr>, w1)"
  | (retry) e c1 w1 where "attempt_body sub env p cfg (c, w) = (Inl e, c1, w1)"
      and "transient e" and "int a \<noteq> retry_attempts c1 - 1"
      and "res = for_attempts sub env p cfg as
             (c1\<lparr>circuit_breaker := record_failure (clock w1) (circuit_breaker c1)\<rparr>,
              sleep (2 ^ a) w1)"
proof -
  obtain r1 c1 w1 where b: "attempt_body sub env p cfg (c, w) = (r1, c1, w1)"
    by (metis prod_cases3)
  let ?c2 = "c1\<lparr>circuit_breaker := record_failure (clock w1) (circuit_breaker c1)\<rparr>"
  show thesis
  proof (cases r1)
    case (Inr resp)
    with b assms have "res = (Inr resp, c1, w1)" by auto
    with b Inr returned show ?thesis by blast
  next
    case (Inl e)
    show ?thesis
    proof (cases "transient e")
      case False
      with b Inl assms have "res = (Inl e, c1, w1)" by auto
      with b Inl False fatal show ?thesis by blast
    next
      case True
      show ?thesis
      proof (cases "int a = retry_attempts c1 - 1")
        case eq: True
        with b Inl True assms have "res = try_fallback_model env p cfg (?c2, w1)" by auto
        with b Inl True eq fallback show ?thesis by blast
      next
        case ne: False
        with b Inl True assms
        have "res = for_attempts sub env p cfg as (?c2, sleep (2 ^ a) w1)" by auto
        with b Inl True ne retry show ?thesis by blast
      qed
    qed
  qed
qed

lemma for_attempts_accounted:
  assumes d: "B \<longrightarrow> (\<forall>k q g. snd (env k q g) \<le> T)"
  shows "for_attempts sub env p cfg as (c, w) = (r, c', w') \<Longrightarrow>
     \<exists>evs. accounted B T w evs w' \<and> prefix evs (schedule cfg (retry_attempts c) as)"
proof (induction as arbitrary: c w)
  case Nil
  then show ?case using accounted_refl by auto
next
  case (Cons a as)
  let ?n = "retry_attempts c"
  let ?prim = "NetCall (cfg ''model'')"
  have body: "retry_attempts c1 = ?n \<and> (accounted B T w [] w1 \<or> accounted B T w [?prim] w1)"
    if "attempt_body sub env p cfg (c, w) = (r1, c1, w1)" for r1 c1 w1
    using attempt_body_cases [OF that] accounted_refl [of B T w]
      accounted_call [OF d, of w cfg p] by auto
  have body_t: "retry_attempts c1 = ?n \<and> accounted B T w [?prim] w1"
    if "attempt_body sub env p cfg (c, w) = (Inl e, c1, w1)" and "transient e" for e c1 w1
    using attempt_body_cases [OF that(1)] that(2) accounted_call [OF d, of w cfg p] by auto
  from Cons.prems show ?case
  proof (cases rule: for_attempts_step)
    case (returned resp c1 w1)
    with body [of "Inr resp" c1 w1] have "accounted B T w [] w' \<or> accounted B T w [?prim] w'"
      by simp
    then show ?thesis by (auto simp: prefix_def)
  next
    case (fatal e c1 w1)
    with body [of "Inl e" c1 w1] have "accounted B T w [] w' \<or> accounted B T w [?prim] w'"
      by simp
    then show ?thesis by (auto simp: prefix_def)
  next
    case (fallback e c1 w1)
    from body_t [OF fallback(1,2)] have n: "retry_attempts c1 = ?n"
      and a1: "accounted B T w [?prim] w1" by simp_all
    from fallback(4) have "w' = snd (make_llm_call env p (fallback_config cfg) w1)"
      by (simp add: try_fallback_model_def split: prod.splits)
    with accounted_call [OF d, of w1 "fallback_config cfg" p]
    have "accounted B T w1 [NetCall (fallback_config cfg ''model'')] w'" by simp
    from accounted_trans [OF a1 this] fallback(3) n show ?thesis
      by (auto simp: prefix_def)
  next
    case (retry e c1 w1)
    from body_t [OF retry(1,2)] have n: "retry_attempts c1 = ?n"
      and a1: "accounted B T w [?prim] w1" by simp_all
    let ?c2 = "c1\<lparr>circuit_breaker := record_failure (clock w1) (circuit_breaker c1)\<rparr>"
    from Cons.IH [OF retry(4) [symmetric]] n obtain evs
      where a2: "accounted B T (sleep (2 ^ a) w1) evs w'"
        and p2: "prefix evs (schedule cfg ?n as)" by auto
    from accounted_trans [OF accounted_trans [OF a1 accounted_sleep] a2]
    have "accounted B T w (?prim # Sleep (2 ^ a) # evs) w'" by simp
    with p2 retry(3) n show ?thesis by auto
  qed
qed

lemma ncalls_schedule: "ncalls (schedule cfg n as) \<le> length as + 1"
  by (induction as) (simp_all add: ncalls_def)

lemma sleeps_schedule_upt:
  "m < n \<Longrightarrow> sleeps (schedule cfg (int n) [m..<n]) + 2 ^ m = 2 ^ (n - 1)"
proof (induction "n - m" arbitrary: m)
  case 0
  then show ?case by simp
next
  case (Suc k)
  then have u: "[m..<n] = m # [Suc m..<n]" by (simp add: upt_conv_Cons)
  show ?case
  proof (cases "Suc m = n")
    case True
    then have "int m = int n - 1" by auto
    with u True show ?thesis by (auto simp: sleeps_def)
  next
    case False
    with Suc.prems have lt: "Suc m < n" by simp
    then have ne: "int m \<noteq> int n - 1" by auto
    from Suc.hyps(2) have "k = n - Suc m" by simp
    from Suc.hyps(1) [OF this lt]
    have "sleeps (schedule cfg (int n) [Suc m..<n]) + 2 ^ Suc m = 2 ^ (n - 1)" .
    with u ne show ?thesis by (simp add: sleeps_def)
  qed
qed

lemma prefix_ncalls: "prefix xs ys \<Longrightarrow> ncalls xs \<le> ncalls ys"
  by (auto simp: prefix_def ncalls_def)

lemma prefix_sleeps: "prefix xs ys \<Longrightarrow> sleeps xs \<le> sleeps ys"
  by (auto simp: prefix_def sleeps_def)

lemma schedule_upt:
  "m < n \<Longrightarrow> schedule cfg (int n) [m..<n] =
     concat (map (\<lambda>a. [NetCall (cfg ''model''), Sleep (2 ^ a)]) [m..<n - 1])
       @ [NetCall (cfg ''model''), NetCall (fallback_config cfg ''model'')]"
proof (induction "n - m" arbitrary: m)
  case 0
  then show ?case by simp
next
  case (Suc k)
  then have u: "[m..<n] = m # [Suc m..<n]" by (simp add: upt_conv_Cons)
  show ?case
  proof (cases "Suc m = n")
    case True
    then have "int m = int n - 1" by auto
    with u True show ?thesis by auto
  next
    case False
    with Suc.prems have lt: "Suc m < n" by simp
    then have ne: "int m \<noteq> int n - 1" by auto
    from lt have v: "[m..<n - 1] = m # [Suc m..<n - 1]" by (simp add: upt_conv_Cons)
    from Suc.hyps(2) have "k = n - Suc m" by simp
    from Suc.hyps(1) [OF this lt] u v ne show ?thesis by simp
  qed
qed

lemma schedule_backoff: "schedule cfg (int n) [0..<n] = backoff_schedule cfg n"
  by (cases "n = 0") (simp_all add: backoff_schedule_def schedule_upt)

lemma ncalls_backoff: "ncalls (backoff_schedule cfg n) \<le> n + 1"
  using ncalls_schedule [of cfg "int n" "[0..<n]"] by (simp add: schedule_backoff)

lemma sleeps_backoff: "sleeps (backoff_schedule cfg n) = 2 ^ (n - 1) - 1"
proof (cases "n = 0")
  case True
  then show ?thesis by (simp add: backoff_schedule_def sleeps_def)
next
  case False
  then have "sleeps (schedule cfg (int n) [0..<n]) + 2 ^ 0 = 2 ^ (n - 1)"
    using sleeps_schedule_upt [of 0 n cfg] by simp
  then show ?thesis by (simp add: schedule_backoff)
qed

lemma call_with_retry_accounted:
  assumes d: "B \<longrightarrow> (\<forall>k q g. snd (env k q g) \<le> T)"
    and r: "call_with_retry sub env p cfg (c, w) = (r, c', w')"
  shows "\<exists>evs. accounted B T w evs w' \<and> prefix evs (backoff_schedule cfg (nat (retry_attempts c)))"
proof (cases "retry_attempts c \<le> 0")
  case True
  with r have "w' = w" by (simp add: call_with_retry_def)
  then show ?thesis by (intro exI [of _ "[]"]) (simp add: accounted_refl)
next
  case False
  then have i: "int (nat (retry_attempts c)) = retry_attempts c" by simp
  from r have "for_attempts sub env p cfg [0..<nat (retry_attempts c)] (c, w) = (r, c', w')"
    by (simp add: call_with_retry_def)
  from for_attempts_accounted [OF d this] i schedule_backoff [of cfg "nat (retry_attempts c)"]
  show ?thesis by simp
qed

lemma attempt_body_closed_failure:
  assumes "state (circuit_breaker c) \<noteq> OPEN" and "fst (env (calls w) p cfg) = Inl e"
  shows "attempt_body sub env p cfg (c, w) = (Inl e, c, snd (make_llm_call env p cfg w))"
  using assms
  by (cases "env (calls w) p cfg")
     (simp add: attempt_body_def is_open_def make_llm_call_def)

lemma all_attempts_fail:
  assumes "retry_attempts c = int n" and "m < n"
    and "state (circuit_breaker c) = CLOSED"
    and "failure_count (circuit_breaker c) + int (n - m) \<le> failure_threshold (circuit_breaker c)"
    and "\<forall>k < n - m. \<exists>e. fst (env (calls w + k) p cfg) = Inl e \<and> transient e"
  shows "\<exists>c1 w1. for_attempts sub env p cfg [m..<n] (c, w) = try_fallback_model env p cfg (c1, w1)
           \<and> failure_count (circuit_breaker c1) = failure_count (circuit_breaker c) + int (n - m)
           \<and> calls w1 = calls w + (n - m)"
  using assms
proof (induction "n - m" arbitrary: m c w)
  case 0
  then show ?case by simp
next
  case (Suc j)
  then have u: "[m..<n] = m # [Suc m..<n]" by (simp add: upt_conv_Cons)
  from Suc.prems(5) Suc.hyps(2) obtain e
    where e: "fst (env (calls w) p cfg) = Inl e" and t: "transient e"
    by (metis add.right_neutral zero_less_Suc)
  let ?w1 = "snd (make_llm_call env p cfg w)"
  let ?c2 = "c\<lparr>circuit_breaker := record_failure (clock ?w1) (circuit_breaker c)\<rparr>"
  have cw: "calls ?w1 = calls w + 1"
    by (cases "env (calls w) p cfg") (simp add: make_llm_call_def)
  from Suc.prems(3) e have b: "attempt_body sub env p cfg (c, w) = (Inl e, c, ?w1)"
    by (intro attempt_body_closed_failure) simp_all
  have fc: "failure_count (circuit_breaker ?c2) = failure_count (circuit_breaker c) + 1"
    by (simp add: record_failure_def Let_def)
  show ?case
  proof (cases "Suc m = n")
    case True
    then have "int m = retry_attempts ?c2 - 1" using Suc.prems(1) by auto
    with u b t have "for_attempts sub env p cfg [m..<n] (c, w) = try_fallback_model env p cfg (?c2, ?w1)"
      by (simp add: Let_def)
    with fc cw True show ?thesis by (intro exI [of _ ?c2] exI [of _ ?w1]) auto
  next
    case False
    with Suc.prems(2) have lt: "Suc m < n" by simp
    then have ne: "int m \<noteq> retry_attempts ?c2 - 1" using Suc.prems(1) by auto
    let ?w2 = "sleep (2 ^ m) ?w1"
    from u b t ne
    have f: "for_attempts sub env p cfg [m..<n] (c, w) = for_attempts sub env p cfg [Suc m..<n] (?c2, ?w2)"
      by (simp add: Let_def)
    have j: "j = n - Suc m" using Suc.hyps(2) by simp
    have p1: "retry_attempts ?c2 = int n" using Suc.prems(1) by simp
    have below: "failure_count (circuit_breaker c) + 1 < failure_threshold (circuit_breaker c)"
      using Suc.prems(4) lt by linarith
    then have p3: "state (circuit_breaker ?c2) = CLOSED"
      using Suc.prems(3) by (simp add: record_failure_def Let_def)
    have th: "failure_threshold (circuit_breaker ?c2) = failure_threshold (circuit_breaker c)"
      by (simp add: record_failure_def Let_def)
    have p4: "failure_count (circuit_breaker ?c2) + int (n - Suc m)
                \<le> failure_threshold (circuit_breaker ?c2)"
      using Suc.prems(4) lt fc th by linarith
    have cw2: "calls ?w2 = calls w + 1" using cw by (simp add: sleep_def)
    have p5: "\<forall>k < n - Suc m. \<exists>e. fst (env (calls ?w2 + k) p cfg) = Inl e \<and> transient e"
    proof (intro allI impI)
      fix k assume "k < n - Suc m"
      then have "Suc k < n - m" by simp
      with Suc.prems(5) have "\<exists>e. fst (env (calls w + Suc k) p cfg) = Inl e \<and> transient e"
        by blast
      then show "\<exists>e. fst (env (calls ?w2 + k) p cfg) = Inl e \<and> transient e"
        using cw2 by simp
    qed
    from Suc.hyps(1) [OF j p1 lt p3 p4 p5] obtain c1 w1 where
      r: "for_attempts sub env p cfg [Suc m..<n] (?c2, ?w2) = try_fallback_model env p cfg (c1, w1)"
      and r2: "failure_count (circuit_breaker c1) = failure_count (circuit_breaker ?c2) + int (n - Suc m)"
      and r3: "calls w1 = calls ?w2 + (n - Suc m)" by blast
    from r f have "for_attempts sub env p cfg [m..<n] (c, w) = try_fallback_model env p cfg (c1, w1)"
      by simp
    moreover from r2 fc lt
    have "failure_count (circuit_breaker c1) = failure_count (circuit_breaker c) + int (n - m)"
      by simp
    moreover from r3 cw2 lt have "calls w1 = calls w + (n - m)" by simp
    ultimately show ?thesis by blast
  qed
qed

subsection \<open>Single attempts\<close>

lemma calls_make_llm_call: "calls (snd (make_llm_call env p cfg w)) = calls w + 1"
  by (cases "env (calls w) p cfg") (simp add: make_llm_call_def)

lemma trace_make_llm_call:
  "trace (snd (make_llm_call env p cfg w)) = trace w @ [NetCall (cfg ''model'')]"
  by (cases "env (calls w) p cfg") (simp add: make_llm_call_def)

lemma try_fallback_model_eq:
  "try_fallback_model env p cfg (c, w) =
     (fst (env (calls w) p (fallback_config cfg)), c,
      snd (make_llm_call env p (fallback_config cfg) w))"
  by (cases "env (calls w) p (fallback_config cfg)")
     (simp add: try_fallback_model_def make_llm_call_def)


lemma attempt_body_failure:
  assumes "is_open sub (clock w) (circuit_breaker c) = Inr (False, cb)"
    and "fst (env (calls w) p cfg) = Inl e"
  shows "attempt_body sub env p cfg (c, w) =
           (Inl e, c\<lparr>circuit_breaker := cb\<rparr>, snd (make_llm_call env p cfg w))"
  using assms
  by (cases "env (calls w) p cfg") (simp add: attempt_body_def make_llm_call_def)

lemma attempt_body_open:
  assumes "is_open sub (clock w) (circuit_breaker c) = Inr (True, cb)"
  shows "attempt_body sub env p cfg (c, w) =
           (Inl (CircuitBreakerOpenException ''LLM service unavailable''),
            c\<lparr>circuit_breaker := cb\<rparr>, w)"
  using assms by (simp add: attempt_body_def)

lemma attempt_body_outcome:
  assumes "attempt_body sub env p cfg (c, w) = (r, c1, w1)"
  shows "(w1 = w \<and> (r = Inl TypeError \<or>
                     r = Inl (CircuitBreakerOpenException ''LLM service unavailable''))) \<or>
         (calls w1 = calls w + 1 \<and> r = fst (env (calls w) p cfg))"
  using assms
  by (cases "env (calls w) p cfg")
     (auto simp: attempt_body_def make_llm_call_def is_open_def Let_def
           split: sum.splits prod.splits if_splits option.splits)

lemma upt_nat_Cons: "0 < n \<Longrightarrow> [0..<nat n] = 0 # [1..<nat n]"
  by (simp add: upt_conv_Cons)

lemma call_with_retry_open:
  assumes "state (circuit_breaker c) = OPEN"
    and "last_failure_time (circuit_breaker c) = Some t"
    and "sub (clock w) t \<le> of_int (recovery_timeout (circuit_breaker c))"
    and "0 < retry_attempts c"
  shows "call_with_retry sub env p cfg (c, w) =
           (Inl (CircuitBreakerOpenException ''LLM service unavailable''), c, w)"
proof -
  from assms have "is_open sub (clock w) (circuit_breaker c) = Inr (True, circuit_breaker c)"
    by (simp add: is_open_def)
  from attempt_body_open [OF this, of env p cfg] upt_nat_Cons [OF assms(4)]
  show ?thesis by (simp add: call_with_retry_def)
qed

subsection \<open>Recorded failures\<close>





subsection \<open>The course of an invocation\<close>

lemma failed_attempts_0: "failed_attempts cfg m 0 = []"
  by (simp add: failed_attempts_def)

lemma failed_attempts_Suc:
  "failed_attempts cfg m (Suc f) =
     NetCall (cfg ''model'') # Sleep (2 ^ m) # failed_attempts cfg (Suc m) f"
  by (simp add: failed_attempts_def upt_conv_Cons)

lemma attempt_body_detail:
  assumes "attempt_body sub env p cfg (c, w) = (r, c1, w1)"
  shows "retry_attempts c1 = retry_attempts c \<and>
    ((w1 = w \<and> c1 = c \<and>
      (r = Inl (CircuitBreakerOpenException ''LLM service unavailable'') \<and>
         is_open sub (clock w) (circuit_breaker c) = Inr (True, circuit_breaker c) \<or>
       r = Inl TypeError \<and> is_open sub (clock w) (circuit_breaker c) = Inl TypeError)) \<or>
     (trace w1 = trace w @ [NetCall (cfg ''model'')] \<and> calls w1 = calls w + 1 \<and>
      r = fst (env (calls w) p cfg) \<and>
      ((\<exists>resp. r = Inr resp) \<and> state (circuit_breaker c1) = CLOSED \<and>
         failure_count (circuit_breaker c1) = 0 \<or>
       (\<exists>e. r = Inl e) \<and>
         failure_count (circuit_breaker c1) = failure_count (circuit_breaker c))))"
  using assms
  by (cases "env (calls w) p cfg")
     (auto simp: attempt_body_def make_llm_call_def is_open_def Let_def record_success_def
           split: sum.splits prod.splits if_splits option.splits)

lemma run_shape_shift:
  assumes sh: "run_shape sub env p cfg n (Suc m) c2 w2 r c' w' f"
    and e: "fst (env (calls w) p cfg) = Inl e" and t: "transient e"
    and tr: "trace w2 = trace w @ [NetCall (cfg ''model''), Sleep (2 ^ m)]"
    and ca: "calls w2 = calls w + 1"
    and fc: "failure_count (circuit_breaker c2) = failure_count (circuit_breaker c) + 1"
    and ra: "retry_attempts c2 = retry_attempts c"
  shows "run_shape sub env p cfg n m c w r c' w' (Suc f)"
proof -
  have fails: "\<forall>k<Suc f. \<exists>e. fst (env (calls w + k) p cfg) = Inl e \<and> transient e"
  proof (intro allI impI)
    fix k assume k: "k < Suc f"
    show "\<exists>e. fst (env (calls w + k) p cfg) = Inl e \<and> transient e"
    proof (cases k)
      case 0
      with e t show ?thesis by auto
    next
      case (Suc i)
      with k have "i < f" by simp
      with sh have "\<exists>e. fst (env (calls w2 + i) p cfg) = Inl e \<and> transient e"
        by (simp add: run_shape_def)
      with ca Suc show ?thesis by simp
    qed
  qed
  have fa: "failed_attempts cfg m (Suc f) =
     [NetCall (cfg ''model''), Sleep (2 ^ m)] @ failed_attempts cfg (Suc m) f"
    by (simp add: failed_attempts_Suc)
  have fb: "0 < f \<Longrightarrow> failed_attempts cfg m f =
     [NetCall (cfg ''model''), Sleep (2 ^ m)] @ failed_attempts cfg (Suc m) (f - 1)"
    using failed_attempts_Suc [of cfg m "f - 1"] by simp
  from sh have le: "Suc m + f \<le> n" and rr: "retry_attempts c' = retry_attempts c2"
    by (simp_all add: run_shape_def)
  from sh consider
    (refused) "Suc m + f < n" "trace w' = trace w2 @ failed_attempts cfg (Suc m) f"
      "calls w' = calls w2 + f"
      "failure_count (circuit_breaker c') = failure_count (circuit_breaker c2) + int f"
      "r = Inl (CircuitBreakerOpenException ''LLM service unavailable'') \<and>
          is_open sub (clock w') (circuit_breaker c') = Inr (True, circuit_breaker c') \<or>
        r = Inl TypeError \<and> is_open sub (clock w') (circuit_breaker c') = Inl TypeError"
  | (called) "Suc m + f < n"
      "trace w' = trace w2 @ failed_attempts cfg (Suc m) f @ [NetCall (cfg ''model'')]"
      "calls w' = calls w2 + f + 1" "r = fst (env (calls w2 + f) p cfg)"
      "(\<exists>resp. r = Inr resp) \<and> state (circuit_breaker c') = CLOSED \<and>
          failure_count (circuit_breaker c') = 0 \<or>
        (\<exists>e. r = Inl e \<and> \<not> transient e) \<and>
          failure_count (circuit_breaker c') = failure_count (circuit_breaker c2) + int f"
  | (fellback) "Suc m + f = n" "0 < f"
      "trace w' = trace w2 @ failed_attempts cfg (Suc m) (f - 1)
                    @ [NetCall (cfg ''model''), NetCall (fallback_config cfg ''model'')]"
      "calls w' = calls w2 + f + 1" "r = fst (env (calls w2 + f) p (fallback_config cfg))"
      "failure_count (circuit_breaker c') = failure_count (circuit_breaker c2) + int f"
      "\<exists>u b. circuit_breaker c' = record_failure u b"
    unfolding run_shape_def by blast
  then show ?thesis
  proof cases
    case refused
    then have "m + Suc f < n \<and> trace w' = trace w @ failed_attempts cfg m (Suc f) \<and>
       calls w' = calls w + Suc f \<and>
       failure_count (circuit_breaker c') = failure_count (circuit_breaker c) + int (Suc f) \<and>
       (r = Inl (CircuitBreakerOpenException ''LLM service unavailable'') \<and>
          is_open sub (clock w') (circuit_breaker c') = Inr (True, circuit_breaker c') \<or>
        r = Inl TypeError \<and> is_open sub (clock w') (circuit_breaker c') = Inl TypeError)"
      using tr ca fc fa by simp
    with le rr ra fails show ?thesis unfolding run_shape_def by auto
  next
    case called
    then have "m + Suc f < n \<and>
       trace w' = trace w @ failed_attempts cfg m (Suc f) @ [NetCall (cfg ''model'')] \<and>
       calls w' = calls w + Suc f + 1 \<and> r = fst (env (calls w + Suc f) p cfg) \<and>
       ((\<exists>resp. r = Inr resp) \<and> state (circuit_breaker c') = CLOSED \<and>
          failure_count (circuit_breaker c') = 0 \<or>
        (\<exists>e. r = Inl e \<and> \<not> transient e) \<and>
          failure_count (circuit_breaker c') = failure_count (circuit_breaker c) + int (Suc f))"
      using tr ca fc fa by auto
    with le rr ra fails show ?thesis unfolding run_shape_def by auto
  next
    case fellback
    then have "m + Suc f = n \<and> 0 < Suc f \<and>
       trace w' = trace w @ failed_attempts cfg m (Suc f - 1)
                    @ [NetCall (cfg ''model''), NetCall (fallback_config cfg ''model'')] \<and>
       calls w' = calls w + Suc f + 1 \<and>
       r = fst (env (calls w + Suc f) p (fallback_config cfg)) \<and>
       failure_count (circuit_breaker c') = failure_count (circuit_breaker c) + int (Suc f) \<and>
       (\<exists>u b. circuit_breaker c' = record_failure u b)"
      using tr ca fc fb by simp
    with le rr ra fails show ?thesis unfolding run_shape_def by auto
  qed
qed

lemma for_attempts_shape:
  assumes "retry_attempts c = int n" and "m < n"
    and "for_attempts sub env p cfg [m..<n] (c, w) = (r, c', w')"
  shows "\<exists>f. run_shape sub env p cfg n m c w r c' w' f"
  using assms
proof (induction "n - m" arbitrary: m c w)
  case 0
  then show ?case by simp
next
  case (Suc j)
  then have u: "[m..<n] = m # [Suc m..<n]" by (simp add: upt_conv_Cons)
  with Suc.prems(3)
  have "for_attempts sub env p cfg (m # [Suc m..<n]) (c, w) = (r, c', w')" by simp
  then show ?case
  proof (cases rule: for_attempts_step)
    case (returned resp c1 w1)
    from attempt_body_detail [OF returned(1)] returned(2) Suc.prems(2)
    have "run_shape sub env p cfg n m c w r c' w' 0"
      by (auto simp: run_shape_def failed_attempts_0 intro: sym)
    then show ?thesis ..
  next
    case (fatal e c1 w1)
    from attempt_body_detail [OF fatal(1)] fatal(2,3) Suc.prems(2)
    have "run_shape sub env p cfg n m c w r c' w' 0"
      by (auto simp: run_shape_def failed_attempts_0)
    then show ?thesis ..
  next
    case (fallback e c1 w1)
    let ?c2 = "c1\<lparr>circuit_breaker := record_failure (clock w1) (circuit_breaker c1)\<rparr>"
    from attempt_body_detail [OF fallback(1)] fallback(2)
    have ra: "retry_attempts c1 = retry_attempts c"
      and tr: "trace w1 = trace w @ [NetCall (cfg ''model'')]"
      and ca: "calls w1 = calls w + 1" and e: "fst (env (calls w) p cfg) = Inl e"
      and fc: "failure_count (circuit_breaker c1) = failure_count (circuit_breaker c)"
      by auto
    from fallback(3) ra Suc.prems(1) have mn: "m + 1 = n" by simp
    from fallback(4) have r: "r = fst (env (calls w1) p (fallback_config cfg))"
      and c': "c' = ?c2" and w': "w' = snd (make_llm_call env p (fallback_config cfg) w1)"
      by (simp_all add: try_fallback_model_eq)
    have fc2: "failure_count (circuit_breaker ?c2) = failure_count (circuit_breaker c1) + 1"
      by (simp add: record_failure_def Let_def)
    have "run_shape sub env p cfg n m c w r c' w' 1"
      unfolding run_shape_def
      using mn ra tr ca e fc r c' w' fc2 fallback(2)
        calls_make_llm_call [of env p "fallback_config cfg" w1]
        trace_make_llm_call [of env p "fallback_config cfg" w1]
      by (auto simp: failed_attempts_0)
    then show ?thesis ..
  next
    case (retry e c1 w1)
    let ?c2 = "c1\<lparr>circuit_breaker := record_failure (clock w1) (circuit_breaker c1)\<rparr>"
    let ?w2 = "sleep (2 ^ m) w1"
    from attempt_body_detail [OF retry(1)] retry(2)
    have ra: "retry_attempts c1 = retry_attempts c"
      and tr: "trace w1 = trace w @ [NetCall (cfg ''model'')]"
      and ca: "calls w1 = calls w + 1" and e: "fst (env (calls w) p cfg) = Inl e"
      and fc: "failure_count (circuit_breaker c1) = failure_count (circuit_breaker c)"
      by auto
    from retry(3) ra Suc.prems(1,2) have lt: "Suc m < n" by auto
    from Suc.hyps(2) have j: "j = n - Suc m" by simp
    have ra2: "retry_attempts ?c2 = int n" using ra Suc.prems(1) by simp
    from Suc.hyps(1) [OF j ra2 lt retry(4) [symmetric]] obtain f
      where sh: "run_shape sub env p cfg n (Suc m) ?c2 ?w2 r c' w' f" by blast
    have tr2: "trace ?w2 = trace w @ [NetCall (cfg ''model''), Sleep (2 ^ m)]"
      using tr by (simp add: sleep_def)
    have ca2: "calls ?w2 = calls w + 1" using ca by (simp add: sleep_def)
    have fc2: "failure_count (circuit_breaker ?c2) = failure_count (circuit_breaker c) + 1"
      using fc by (simp add: record_failure_def Let_def)
    have ra3: "retry_attempts ?c2 = retry_attempts c" using ra by simp
    from run_shape_shift [OF sh e retry(2) tr2 ca2 fc2 ra3] show ?thesis ..
  qed
qed

lemma call_with_retry_shape:
  assumes "0 < retry_attempts c" and "call_with_retry sub env p cfg (c, w) = (r, c', w')"
  shows "\<exists>f. run_shape sub env p cfg (nat (retry_attempts c)) 0 c w r c' w' f"
proof -
  let ?n = "nat (retry_attempts c)"
  from assms(1) have n: "retry_attempts c = int ?n" and pos: "0 < ?n" by simp_all
  from assms(2) have "for_attempts sub env p cfg [0..<?n] (c, w) = (r, c', w')"
    by (simp add: call_with_retry_def)
  from for_attempts_shape [OF n pos this] show ?thesis .
qed

lemma call_with_retry_no_attempt:
  "retry_attempts c \<le> 0 \<Longrightarrow>
     call_with_retry sub env p cfg (c, w) =
       (Inl (LLMProcessingException ''All retry attempts failed''), c, w)"
  by (simp add: call_with_retry_def)

lemma is_open_True:
  "is_open sub now cb = Inr (True, cb') \<Longrightarrow>
     state cb = OPEN \<and>
     (\<exists>t. last_failure_time cb = Some t \<and> sub now t \<le> of_int (recovery_timeout cb))"
  by (auto simp: is_open_def split: if_splits option.splits)

lemma is_open_TypeError:
  "is_open sub now cb = Inl e \<Longrightarrow> state cb = OPEN \<and> last_failure_time cb = None"
  by (auto simp: is_open_def split: if_splits option.splits)


lemma call_with_retry_course:
  assumes "call_with_retry sub env prompt cfg (c, w) = (r, c', w')"
    and "trace w' = trace w @ evs"
  shows "\<exists>f.
     f \<le> nat (retry_attempts c) \<and>
     (\<forall>k<f. \<exists>e. fst (env (calls w + k) prompt cfg) = Inl e \<and> transient e) \<and>
     (((retry_attempts c \<le> 0 \<or> int f < retry_attempts c) \<and>
       evs = failed_attempts cfg 0 f \<and> (\<exists>e. r = Inl e) \<and>
       failure_count (circuit_breaker c') = failure_count (circuit_breaker c) + int f) \<or>
      (int f < retry_attempts c \<and>
       evs = failed_attempts cfg 0 f @ [NetCall (cfg ''model'')] \<and>
       r = fst (env (calls w + f) prompt cfg) \<and>
       ((\<exists>resp. r = Inr resp) \<and> failure_count (circuit_breaker c') = 0 \<or>
        (\<exists>e. r = Inl e \<and> \<not> transient e) \<and>
          failure_count (circuit_breaker c') = failure_count (circuit_breaker c) + int f)) \<or>
      (0 < f \<and> int f = retry_attempts c \<and>
       evs = failed_attempts cfg 0 (f - 1)
               @ [NetCall (cfg ''model''), NetCall (fallback_config cfg ''model'')] \<and>
       r = fst (env (calls w + f) prompt (fallback_config cfg)) \<and>
       failure_count (circuit_breaker c') = failure_count (circuit_breaker c) + int f))"
proof (cases "retry_attempts c \<le> 0")
  case True
  from call_with_retry_no_attempt [OF True, of sub env prompt cfg w] assms
  have "r = Inl (LLMProcessingException ''All retry attempts failed'')" and "c' = c"
    and "evs = []" by simp_all
  with True show ?thesis
    by (intro exI [of _ 0]) (simp add: failed_attempts_0)
next
  case False
  then have pos: "0 < retry_attempts c" by simp
  let ?n = "nat (retry_attempts c)"
  from call_with_retry_shape [OF pos assms(1)] obtain f
    where sh: "run_shape sub env prompt cfg ?n 0 c w r c' w' f" by blast
  from sh have le: "f \<le> ?n"
    and fails: "\<forall>k<f. \<exists>e. fst (env (calls w + k) prompt cfg) = Inl e \<and> transient e"
    by (simp_all add: run_shape_def)
  from sh consider
    (refused) "f < ?n" "trace w' = trace w @ failed_attempts cfg 0 f" "\<exists>e. r = Inl e"
      "failure_count (circuit_breaker c') = failure_count (circuit_breaker c) + int f"
  | (called) "f < ?n"
      "trace w' = trace w @ failed_attempts cfg 0 f @ [NetCall (cfg ''model'')]"
      "r = fst (env (calls w + f) prompt cfg)"
      "(\<exists>resp. r = Inr resp) \<and> failure_count (circuit_breaker c') = 0 \<or>
        (\<exists>e. r = Inl e \<and> \<not> transient e) \<and>
          failure_count (circuit_breaker c') = failure_count (circuit_breaker c) + int f"
  | (fellback) "f = ?n" "0 < f"
      "trace w' = trace w @ failed_attempts cfg 0 (f - 1)
                    @ [NetCall (cfg ''model''), NetCall (fallback_config cfg ''model'')]"
      "r = fst (env (calls w + f) prompt (fallback_config cfg))"
      "failure_count (circuit_breaker c') = failure_count (circuit_breaker c) + int f"
    unfolding run_shape_def by auto
  then show ?thesis
  proof cases
    case refused
    with assms(2) have "evs = failed_attempts cfg 0 f" by simp
    with refused pos have "(retry_attempts c \<le> 0 \<or> int f < retry_attempts c) \<and>
       evs = failed_attempts cfg 0 f \<and> (\<exists>e. r = Inl e) \<and>
       failure_count (circuit_breaker c') = failure_count (circuit_breaker c) + int f"
      by simp
    with le fails show ?thesis by blast
  next
    case called
    with assms(2) have "evs = failed_attempts cfg 0 f @ [NetCall (cfg ''model'')]" by simp
    with called pos have "int f < retry_attempts c \<and>
       evs = failed_attempts cfg 0 f @ [NetCall (cfg ''model'')] \<and>
       r = fst (env (calls w + f) prompt cfg) \<and>
       ((\<exists>resp. r = Inr resp) \<and> failure_count (circuit_breaker c') = 0 \<or>
        (\<exists>e. r = Inl e \<and> \<not> transient e) \<and>
          failure_count (circuit_breaker c') = failure_count (circuit_breaker c) + int f)"
      by simp
    with le fails show ?thesis by blast
  next
    case fellback
    with assms(2) have "evs = failed_attempts cfg 0 (f - 1)
               @ [NetCall (cfg ''model''), NetCall (fallback_config cfg ''model'')]" by simp
    with fellback pos have "0 < f \<and> int f = retry_attempts c \<and>
       evs = failed_attempts cfg 0 (f - 1)
               @ [NetCall (cfg ''model''), NetCall (fallback_config cfg ''model'')] \<and>
       r = fst (env (calls w + f) prompt (fallback_config cfg)) \<and>
       failure_count (circuit_breaker c') = failure_count (circuit_breaker c) + int f"
      by simp
    with le fails show ?thesis by blast
  qed
qed

lemmas client_defs =
  call_with_retry_def upt_rec attempt_body_def is_open_def make_llm_call_def
  try_fallback_model_def fallback_config_def record_failure_def record_success_def
  sleep_def Let_def new_LLMClient_def new_CircuitBreaker_def world0_def example_config_def

section \<open>The claims about the client and its breaker\<close>







text \<open>
  Claim C6, as the code has it. When the breaker lets an attempt through and the call
  raises an exception outside \<open>TimeoutError\<close> and \<open>ConnectionError\<close>, the loop
  stops at that attempt and the exception reaches the caller: one call was made, no
  failure was recorded, there was no sleep and no call of the fallback model. No
  degraded result and no note is produced.
\<close>

theorem fatal_error_propagates_at_once:
  assumes "is_open sub (clock w) (circuit_breaker c) = Inr (False, cb)"
    and "fst (env (calls w) prompt cfg) = Inl e" and "\<not> transient e"
  shows "for_attempts sub env prompt cfg (attempt # rest) (c, w) =
           (Inl e, c\<lparr>circuit_breaker := cb\<rparr>, snd (make_llm_call env prompt cfg w)) \<and>
         (0 < retry_attempts c \<longrightarrow>
            call_with_retry sub env prompt cfg (c, w) =
              (Inl e, c\<lparr>circuit_breaker := cb\<rparr>, snd (make_llm_call env prompt cfg w))) \<and>
         failure_count cb = failure_count (circuit_breaker c) \<and>
         calls (snd (make_llm_call env prompt cfg w)) = calls w + 1 \<and>
         trace (snd (make_llm_call env prompt cfg w)) = trace w @ [NetCall (cfg ''model'')]"
proof -
  note b = attempt_body_failure [of sub w c cb env prompt cfg e, OF assms(1,2)]
  from b assms(3) have 1: "for_attempts sub env prompt cfg (attempt # rest) (c, w) =
           (Inl e, c\<lparr>circuit_breaker := cb\<rparr>, snd (make_llm_call env prompt cfg w))"
    by simp
  from b assms(3) upt_nat_Cons [of "retry_attempts c"]
  have 2: "0 < retry_attempts c \<longrightarrow>
            call_with_retry sub env prompt cfg (c, w) =
              (Inl e, c\<lparr>circuit_breaker := cb\<rparr>, snd (make_llm_call env prompt cfg w))"
    by (simp add: call_with_retry_def)
  from 1 2 is_open_count [OF assms(1)] calls_make_llm_call [of env prompt cfg w]
    trace_make_llm_call [of env prompt cfg w]
  show ?thesis by simp
qed

text \<open>A new client whose first call is rejected for its credentials.\<close>

theorem fatal_error_propagates_at_once_witness:
  "call_with_retry (-) env_rejects ''prompt'' example_config (new_LLMClient 3 60, world0) =
     (Inl (OtherError ''401 invalid x-api-key''), new_LLMClient 3 60,
      snd (make_llm_call env_rejects ''prompt'' example_config world0)) \<and>
   calls (snd (make_llm_call env_rejects ''prompt'' example_config world0)) = 1"
  using fatal_error_propagates_at_once
    [of "(-)" world0 "new_LLMClient 3 60" "new_CircuitBreaker 5 60" env_rejects "''prompt''"
        example_config "OtherError ''401 invalid x-api-key''"]
  by (simp add: is_open_def new_LLMClient_def new_CircuitBreaker_def world0_def
        env_rejects_def)

text \<open>The claim as stated fails: the rejected call surfaces as an exception, after one
  call, with nothing recorded on the breaker.\<close>

theorem fatal_error_not_degraded_counterexample:
  "call_with_retry (-) env_rejects ''prompt'' example_config (new_LLMClient 3 60, world0) =
     (Inl (OtherError ''401 invalid x-api-key''),
      \<lparr>retry_attempts = 3, timeout = 60,
       circuit_breaker = \<lparr>failure_threshold = 5, recovery_timeout = 60, failure_count = 0,
                          last_failure_time = None, state = CLOSED\<rparr>\<rparr>,
      \<lparr>clock = 1, calls = 1,
       trace = [NetCall (Some (PyStr ''claude-3-5-sonnet-20241022''))]\<rparr>)"
  by (simp add: client_defs env_rejects_def)

text \<open>
  Claim C1, as the code has it. Every invocation ends. With no attempt to make
  (\<open>retry_attempts \<le> 0\<close>) it raises \<^verbatim>\<open>LLMProcessingException\<close> and changes
  nothing. Otherwise it ends in one of four ways: with
  \<^verbatim>\<open>CircuitBreakerOpenException\<close>, the breaker being \<open>OPEN\<close> and within its
  cool-down at that moment; with the \<^verbatim>\<open>TypeError\<close> of \<^verbatim>\<open>is_open\<close>, the breaker
  being \<open>OPEN\<close> with no failure time; with the outcome of its last primary call, a
  response text or an exception that is not caught; or, every primary attempt having
  failed with a caught exception, with the outcome of the call of the fallback model,
  a response text or any exception. The invocation returns a string or raises; it
  builds no parse result.
\<close>

theorem invocation_returns_or_raises:
  "\<exists>r c' w'. call_with_retry sub env prompt cfg (c, w) = (r, c', w') \<and>
     (retry_attempts c \<le> 0 \<longrightarrow>
        r = Inl (LLMProcessingException ''All retry attempts failed'') \<and> c' = c \<and> w' = w) \<and>
     (0 < retry_attempts c \<longrightarrow>
        (r = Inl (CircuitBreakerOpenException ''LLM service unavailable'') \<and>
         state (circuit_breaker c') = OPEN \<and>
         (\<exists>t. last_failure_time (circuit_breaker c') = Some t \<and>
              sub (clock w') t \<le> of_int (recovery_timeout (circuit_breaker c')))) \<or>
        (r = Inl TypeError \<and> state (circuit_breaker c') = OPEN \<and>
         last_failure_time (circuit_breaker c') = None) \<or>
        (calls w < calls w' \<and> r = fst (env (calls w' - 1) prompt cfg) \<and>
         (\<forall>e. r = Inl e \<longrightarrow> \<not> transient e)) \<or>
        (calls w' = calls w + nat (retry_attempts c) + 1 \<and>
         r = fst (env (calls w' - 1) prompt (fallback_config cfg)) \<and>
         (\<forall>k < nat (retry_attempts c).
            \<exists>e. fst (env (calls w + k) prompt cfg) = Inl e \<and> transient e)))"
proof -
  obtain r c' w' where e: "call_with_retry sub env prompt cfg (c, w) = (r, c', w')"
    by (metis prod_cases3)
  have none: "r = Inl (LLMProcessingException ''All retry attempts failed'') \<and> c' = c \<and> w' = w"
    if "retry_attempts c \<le> 0"
    using call_with_retry_no_attempt [OF that, of sub env prompt cfg w] e by simp
  have some:
       "(r = Inl (CircuitBreakerOpenException ''LLM service unavailable'') \<and>
         state (circuit_breaker c') = OPEN \<and>
         (\<exists>t. last_failure_time (circuit_breaker c') = Some t \<and>
              sub (clock w') t \<le> of_int (recovery_timeout (circuit_breaker c')))) \<or>
        (r = Inl TypeError \<and> state (circuit_breaker c') = OPEN \<and>
         last_failure_time (circuit_breaker c') = None) \<or>
        (calls w < calls w' \<and> r = fst (env (calls w' - 1) prompt cfg) \<and>
         (\<forall>e. r = Inl e \<longrightarrow> \<not> transient e)) \<or>
        (calls w' = calls w + nat (retry_attempts c) + 1 \<and>
         r = fst (env (calls w' - 1) prompt (fallback_config cfg)) \<and>
         (\<forall>k < nat (retry_attempts c).
            \<exists>e. fst (env (calls w + k) prompt cfg) = Inl e \<and> transient e))"
    if pos: "0 < retry_attempts c"
  proof -
    let ?n = "nat (retry_attempts c)"
    from call_with_retry_shape [OF pos e] obtain f
      where sh: "run_shape sub env prompt cfg ?n 0 c w r c' w' f" by blast
    then consider
      (refused) "r = Inl (CircuitBreakerOpenException ''LLM service unavailable'') \<and>
          is_open sub (clock w') (circuit_breaker c') = Inr (True, circuit_breaker c') \<or>
        r = Inl TypeError \<and> is_open sub (clock w') (circuit_breaker c') = Inl TypeError"
    | (called) "calls w' = calls w + f + 1" "r = fst (env (calls w + f) prompt cfg)"
        "(\<exists>resp. r = Inr resp) \<or> (\<exists>e. r = Inl e \<and> \<not> transient e)"
    | (fellback) "f = ?n" "calls w' = calls w + f + 1"
        "r = fst (env (calls w + f) prompt (fallback_config cfg))"
        "\<forall>k<f. \<exists>e. fst (env (calls w + k) prompt cfg) = Inl e \<and> transient e"
      unfolding run_shape_def by auto
    then show ?thesis
    proof cases
      case refused
      then show ?thesis using is_open_True is_open_TypeError by blast
    next
      case called
      then have "calls w < calls w' \<and> r = fst (env (calls w' - 1) prompt cfg) \<and>
         (\<forall>e. r = Inl e \<longrightarrow> \<not> transient e)" by auto
      then show ?thesis by blast
    next
      case fellback
      then have "calls w' = calls w + nat (retry_attempts c) + 1 \<and>
         r = fst (env (calls w' - 1) prompt (fallback_config cfg)) \<and>
         (\<forall>k < nat (retry_attempts c).
            \<exists>e. fst (env (calls w + k) prompt cfg) = Inl e \<and> transient e)" by simp
      then show ?thesis by blast
    qed
  qed
  from e none some show ?thesis by blast
qed

text \<open>A client without attempts, which raises at once, and a new client whose first call
  answers, which returns that answer.\<close>

theorem invocation_returns_or_raises_witness:
  "call_with_retry (-) env_timeouts ''prompt'' example_config (new_LLMClient 0 60, world0)
     = (Inl (LLMProcessingException ''All retry attempts failed''), new_LLMClient 0 60, world0) \<and>
   (\<exists>r c' w'. call_with_retry (-) (env_answers ''{}'') ''prompt'' example_config
                (new_LLMClient 3 60, world0) = (r, c', w') \<and>
     r = Inr ''{}'' \<and> calls w' = 1 \<and>
     r = fst (env_answers ''{}'' (calls w' - 1) ''prompt'' example_config))"
proof -
  from invocation_returns_or_raises
    [of "(-)" env_timeouts "''prompt''" example_config "new_LLMClient 0 60" world0]
  obtain r0 c0 w0 where
    e0: "call_with_retry (-) env_timeouts ''prompt'' example_config (new_LLMClient 0 60, world0)
           = (r0, c0, w0)"
    and n0: "retry_attempts (new_LLMClient 0 60) \<le> 0 \<longrightarrow>
        r0 = Inl (LLMProcessingException ''All retry attempts failed'') \<and>
        c0 = new_LLMClient 0 60 \<and> w0 = world0"
    by blast
  have "retry_attempts (new_LLMClient 0 60) \<le> 0" by (simp add: new_LLMClient_def)
  with n0 e0 have a: "call_with_retry (-) env_timeouts ''prompt'' example_config
      (new_LLMClient 0 60, world0)
     = (Inl (LLMProcessingException ''All retry attempts failed''), new_LLMClient 0 60, world0)"
    by simp
  from invocation_returns_or_raises
    [of "(-)" "env_answers ''{}''" "''prompt''" example_config "new_LLMClient 3 60" world0]
  obtain r c' w' where
    e: "call_with_retry (-) (env_answers ''{}'') ''prompt'' example_config
          (new_LLMClient 3 60, world0) = (r, c', w')"
    by blast
  have v: "call_with_retry (-) (env_answers ''{}'') ''prompt'' example_config
          (new_LLMClient 3 60, world0) =
     (Inr ''{}'',
      \<lparr>retry_attempts = 3, timeout = 60,
       circuit_breaker = \<lparr>failure_threshold = 5, recovery_timeout = 60, failure_count = 0,
                          last_failure_time = None, state = CLOSED\<rparr>\<rparr>,
      \<lparr>clock = 2, calls = 1,
       trace = [NetCall (Some (PyStr ''claude-3-5-sonnet-20241022''))]\<rparr>)"
    by (simp add: client_defs env_answers_def)
  from e v have "r = Inr ''{}''" and "calls w' = 1" by auto
  with e have "\<exists>r c' w'. call_with_retry (-) (env_answers ''{}'') ''prompt'' example_config
                (new_LLMClient 3 60, world0) = (r, c', w') \<and>
     r = Inr ''{}'' \<and> calls w' = 1 \<and>
     r = fst (env_answers ''{}'' (calls w' - 1) ''prompt'' example_config)"
    by (simp add: env_answers_def)
  with a show ?thesis by blast
qed

text \<open>The claim as stated fails: when every call times out, the invocation of a new
  client ends, after three primary calls and one call of the fallback model, in the
  \<^verbatim>\<open>TimeoutError\<close> of that last call.\<close>

theorem call_with_retry_raises_counterexample:
  "call_with_retry (-) env_timeouts ''prompt'' example_config (new_LLMClient 3 60, world0) =
     (Inl TimeoutError,
      \<lparr>retry_attempts = 3, timeout = 60,
       circuit_breaker = \<lparr>failure_threshold = 5, recovery_timeout = 60, failure_count = 3,
                          last_failure_time = Some 183, state = CLOSED\<rparr>\<rparr>,
      \<lparr>clock = 243, calls = 4,
       trace = [NetCall (Some (PyStr ''claude-3-5-sonnet-20241022'')), Sleep 1,
                NetCall (Some (PyStr ''claude-3-5-sonnet-20241022'')), Sleep 2,
                NetCall (Some (PyStr ''claude-3-5-sonnet-20241022'')),
                NetCall (Some (PyStr ''claude-3-haiku-20240307''))]\<rparr>)"
  by (simp add: client_defs env_timeouts_def)

subsection \<open>Runs in which every primary attempt fails\<close>

lemma all_primary_fail:
  assumes "state (circuit_breaker c) = CLOSED" and "0 < retry_attempts c"
    and "failure_count (circuit_breaker c) + retry_attempts c
           \<le> failure_threshold (circuit_breaker c)"
    and "\<forall>k < nat (retry_attempts c). \<exists>e. fst (env (calls w + k) p cfg) = Inl e \<and> transient e"
    and "call_with_retry sub env p cfg (c, w) = (r, c', w')"
  shows "r = fst (env (calls w + nat (retry_attempts c)) p (fallback_config cfg)) \<and>
         calls w' = calls w + nat (retry_attempts c) + 1 \<and>
         failure_count (circuit_breaker c') = failure_count (circuit_breaker c) + retry_attempts c"
proof -
  let ?n = "nat (retry_attempts c)"
  have n: "retry_attempts c = int ?n" and pos: "0 < ?n" using assms(2) by simp_all
  have le: "failure_count (circuit_breaker c) + int (?n - 0) \<le> failure_threshold (circuit_breaker c)"
    using assms(2,3) by simp
  have fl: "\<forall>k < ?n - 0. \<exists>e. fst (env (calls w + k) p cfg) = Inl e \<and> transient e"
    using assms(4) by simp
  from all_attempts_fail [where c = c and n = ?n and m = 0 and w = w and env = env
      and p = p and cfg = cfg, OF n pos assms(1) le fl] obtain c1 w1 where
    f: "for_attempts sub env p cfg [0..<?n] (c, w) = try_fallback_model env p cfg (c1, w1)"
    and fc: "failure_count (circuit_breaker c1) = failure_count (circuit_breaker c) + int (?n - 0)"
    and cw: "calls w1 = calls w + (?n - 0)" by blast
  from f assms(5) have "(r, c', w') = try_fallback_model env p cfg (c1, w1)"
    by (simp add: call_with_retry_def)
  then have "r = fst (env (calls w1) p (fallback_config cfg))" and "c' = c1"
    and "calls w' = calls w1 + 1"
    by (simp_all add: try_fallback_model_eq calls_make_llm_call)
  with fc cw assms(2) show ?thesis by simp
qed

text \<open>
  Claim C4, as the code has it. Every invocation ends. What it does to the world is an
  initial part of the full course of a failing run: a primary call and a sleep of
  \<open>2 ^ attempt\<close> seconds for every attempt but the last, the last primary call, and
  one call of the fallback model; so it makes at most \<open>retry_attempts + 1\<close> network
  calls (four for the default of three attempts). If no call takes longer than
  \<open>timeout\<close> seconds, the invocation takes at most \<open>timeout * (retry_attempts + 1)\<close>
  seconds and the sleeps, \<open>2 ^ (retry_attempts - 1) - 1\<close> seconds. When every primary
  attempt fails with a caught exception and the breaker stays closed meanwhile, the
  invocation makes exactly \<open>retry_attempts + 1\<close> calls and the failure counter has
  grown by one for each failed attempt. And of every invocation, whatever the breaker
  and the service do: some number \<open>f\<close> of primary attempts fail with a caught
  exception, each followed by its sleep of \<open>2 ^ attempt\<close> seconds (the last attempt
  of the budget by the call of the fallback model instead); after them the invocation
  ends without a further call, or with one more primary call, or with the call of the
  fallback model; and the failure counter ends at its old value plus \<open>f\<close>, unless a
  primary call answers, which sets it to 0.
\<close>

theorem retry_budget:
  "\<exists>r c' w' evs f. call_with_retry sub env prompt cfg (c, w) = (r, c', w') \<and>
     trace w' = trace w @ evs \<and>
     prefix evs (backoff_schedule cfg (nat (retry_attempts c))) \<and>
     calls w' = calls w + ncalls evs \<and>
     ncalls evs \<le> nat (retry_attempts c) + 1 \<and>
     ((\<forall>k q g. snd (env k q g) \<le> of_int (timeout c)) \<and> 0 \<le> timeout c \<longrightarrow>
        clock w' - clock w
          \<le> of_int (timeout c) * (real (nat (retry_attempts c)) + 1)
             + (2 ^ (nat (retry_attempts c) - 1) - 1)) \<and>
     (state (circuit_breaker c) = CLOSED \<and> 0 < retry_attempts c \<and>
      failure_count (circuit_breaker c) + retry_attempts c
        \<le> failure_threshold (circuit_breaker c) \<and>
      (\<forall>k < nat (retry_attempts c).
         \<exists>e. fst (env (calls w + k) prompt cfg) = Inl e \<and> transient e) \<longrightarrow>
        calls w' = calls w + nat (retry_attempts c) + 1 \<and>
        failure_count (circuit_breaker c')
          = failure_count (circuit_breaker c) + retry_attempts c) \<and>
     f \<le> nat (retry_attempts c) \<and>
     (\<forall>k<f. \<exists>e. fst (env (calls w + k) prompt cfg) = Inl e \<and> transient e) \<and>
     (((retry_attempts c \<le> 0 \<or> int f < retry_attempts c) \<and>
       evs = failed_attempts cfg 0 f \<and> (\<exists>e. r = Inl e) \<and>
       failure_count (circuit_breaker c') = failure_count (circuit_breaker c) + int f) \<or>
      (int f < retry_attempts c \<and>
       evs = failed_attempts cfg 0 f @ [NetCall (cfg ''model'')] \<and>
       r = fst (env (calls w + f) prompt cfg) \<and>
       ((\<exists>resp. r = Inr resp) \<and> failure_count (circuit_breaker c') = 0 \<or>
        (\<exists>e. r = Inl e \<and> \<not> transient e) \<and>
          failure_count (circuit_breaker c') = failure_count (circuit_breaker c) + int f)) \<or>
      (0 < f \<and> int f = retry_attempts c \<and>
       evs = failed_attempts cfg 0 (f - 1)
               @ [NetCall (cfg ''model''), NetCall (fallback_config cfg ''model'')] \<and>
       r = fst (env (calls w + f) prompt (fallback_config cfg)) \<and>
       failure_count (circuit_breaker c') = failure_count (circuit_breaker c) + int f))"
proof -
  let ?n = "nat (retry_attempts c)"
  let ?T = "real_of_int (timeout c)"
  let ?B = "\<forall>k q g. snd (env k q g) \<le> ?T"
  obtain r c' w' where e: "call_with_retry sub env prompt cfg (c, w) = (r, c', w')"
    by (metis prod_cases3)
  have "?B \<longrightarrow> (\<forall>k q g. snd (env k q g) \<le> ?T)" by simp
  from call_with_retry_accounted [OF this e] obtain evs where
    a: "accounted ?B ?T w evs w'" and p: "prefix evs (backoff_schedule cfg ?n)" by blast
  from a have tr: "trace w' = trace w @ evs" and ca: "calls w' = calls w + ncalls evs"
    and cl: "?B \<longrightarrow> clock w' \<le> clock w + ?T * real (ncalls evs) + real (sleeps evs)"
    by (simp_all add: accounted_def)
  from prefix_ncalls [OF p] ncalls_backoff [of cfg ?n] have nc: "ncalls evs \<le> ?n + 1"
    by simp
  from prefix_sleeps [OF p] have sl: "sleeps evs \<le> 2 ^ (?n - 1) - 1"
    by (simp add: sleeps_backoff)
  have bound: "clock w' - clock w \<le> ?T * (real ?n + 1) + (2 ^ (?n - 1) - 1)"
    if b: "?B" and t: "0 \<le> timeout c"
  proof -
    from cl b have 1: "clock w' \<le> clock w + ?T * real (ncalls evs) + real (sleeps evs)"
      by blast
    from nc have "real (ncalls evs) \<le> real ?n + 1" by linarith
    with t have 2: "?T * real (ncalls evs) \<le> ?T * (real ?n + 1)"
      by (intro mult_left_mono) simp_all
    have "real (sleeps evs) \<le> real (2 ^ (?n - 1) - 1)" using sl by linarith
    also have "\<dots> = 2 ^ (?n - 1) - 1" by (simp add: of_nat_diff)
    finally have 3: "real (sleeps evs) \<le> 2 ^ (?n - 1) - 1" .
    from 1 2 3 show ?thesis by linarith
  qed
  have allfail: "calls w' = calls w + ?n + 1 \<and>
        failure_count (circuit_breaker c') = failure_count (circuit_breaker c) + retry_attempts c"
    if "state (circuit_breaker c) = CLOSED" "0 < retry_attempts c"
      "failure_count (circuit_breaker c) + retry_attempts c \<le> failure_threshold (circuit_breaker c)"
      "\<forall>k < ?n. \<exists>e. fst (env (calls w + k) prompt cfg) = Inl e \<and> transient e"
    using all_primary_fail [OF that e] by simp
  from call_with_retry_course [OF e tr] obtain f where co: "
     f \<le> nat (retry_attempts c) \<and>
     (\<forall>k<f. \<exists>e. fst (env (calls w + k) prompt cfg) = Inl e \<and> transient e) \<and>
     (((retry_attempts c \<le> 0 \<or> int f < retry_attempts c) \<and>
       evs = failed_attempts cfg 0 f \<and> (\<exists>e. r = Inl e) \<and>
       failure_count (circuit_breaker c') = failure_count (circuit_breaker c) + int f) \<or>
      (int f < retry_attempts c \<and>
       evs = failed_attempts cfg 0 f @ [NetCall (cfg ''model'')] \<and>
       r = fst (env (calls w + f) prompt cfg) \<and>
       ((\<exists>resp. r = Inr resp) \<and> failure_count (circuit_breaker c') = 0 \<or>
        (\<exists>e. r = Inl e \<and> \<not> transient e) \<and>
          failure_count (circuit_breaker c') = failure_count (circuit_breaker c) + int f)) \<or>
      (0 < f \<and> int f = retry_attempts c \<and>
       evs = failed_attempts cfg 0 (f - 1)
               @ [NetCall (cfg ''model''), NetCall (fallback_config cfg ''model'')] \<and>
       r = fst (env (calls w + f) prompt (fallback_config cfg)) \<and>
       failure_count (circuit_breaker c') = failure_count (circuit_breaker c) + int f))" by blast
  from e tr p ca nc bound allfail co show ?thesis by blast
qed

text \<open>A new client (three attempts, 60 seconds) against a service whose calls all time out
  after 60 seconds.\<close>

theorem retry_budget_witness:
  "\<exists>r c' w'. call_with_retry (-) env_timeouts ''prompt'' example_config
                (new_LLMClient 3 60, world0) = (r, c', w') \<and>
     calls w' = 4 \<and> failure_count (circuit_breaker c') = 3 \<and> clock w' - clock world0 \<le> 243"
proof -
  let ?c = "new_LLMClient 3 60"
  from retry_budget [of "(-)" env_timeouts "''prompt''" example_config ?c world0]
  obtain r c' w' evs f where
    e: "call_with_retry (-) env_timeouts ''prompt'' example_config (?c, world0) = (r, c', w')"
    and cl: "(\<forall>k q g. snd (env_timeouts k q g) \<le> of_int (timeout ?c)) \<and> 0 \<le> timeout ?c \<longrightarrow>
        clock w' - clock world0
          \<le> of_int (timeout ?c) * (real (nat (retry_attempts ?c)) + 1)
             + (2 ^ (nat (retry_attempts ?c) - 1) - 1)"
    and af: "state (circuit_breaker ?c) = CLOSED \<and> 0 < retry_attempts ?c \<and>
      failure_count (circuit_breaker ?c) + retry_attempts ?c
        \<le> failure_threshold (circuit_breaker ?c) \<and>
      (\<forall>k < nat (retry_attempts ?c).
         \<exists>e. fst (env_timeouts (calls world0 + k) ''prompt'' example_config) = Inl e \<and> transient e) \<longrightarrow>
        calls w' = calls world0 + nat (retry_attempts ?c) + 1 \<and>
        failure_count (circuit_breaker c')
          = failure_count (circuit_breaker ?c) + retry_attempts ?c"
    by blast
  have h1: "(\<forall>k q g. snd (env_timeouts k q g) \<le> of_int (timeout ?c)) \<and> 0 \<le> timeout ?c"
    by (simp add: env_timeouts_def new_LLMClient_def)
  have h2: "state (circuit_breaker ?c) = CLOSED \<and> 0 < retry_attempts ?c \<and>
      failure_count (circuit_breaker ?c) + retry_attempts ?c
        \<le> failure_threshold (circuit_breaker ?c) \<and>
      (\<forall>k < nat (retry_attempts ?c).
         \<exists>e. fst (env_timeouts (calls world0 + k) ''prompt'' example_config) = Inl e \<and> transient e)"
    by (simp add: env_timeouts_def new_LLMClient_def new_CircuitBreaker_def)
  from cl h1 have "clock w' - clock world0 \<le> 243"
    by (simp add: new_LLMClient_def)
  moreover from af h2 have "calls w' = 4" and "failure_count (circuit_breaker c') = 3"
    by (simp_all add: new_LLMClient_def new_CircuitBreaker_def world0_def)
  ultimately show ?thesis using e by blast
qed

text \<open>The claim as stated fails there: four network calls, not three, in 243 seconds, not
  within \<open>timeout * attempts = 180\<close>.\<close>

theorem retry_budget_counterexample:
  "calls (snd (snd (call_with_retry (-) env_timeouts ''prompt'' example_config
                      (new_LLMClient 3 60, world0)))) = 4 \<and>
   clock (snd (snd (call_with_retry (-) env_timeouts ''prompt'' example_config
                      (new_LLMClient 3 60, world0)))) - clock world0 = 243 \<and>
   timeout (new_LLMClient 3 60) * retry_attempts (new_LLMClient 3 60) = 180"
  by (simp add: client_defs env_timeouts_def)

text \<open>
  Claim C5, as the code has it. When every primary attempt fails with a caught
  exception (the breaker staying closed meanwhile), the invocation ends with the
  outcome of one more call, made with the fallback model's configuration: its response
  text or its exception. When the breaker is open within its cool-down, the invocation
  raises \<^verbatim>\<open>CircuitBreakerOpenException\<close>. The deterministic
  \<^verbatim>\<open>cv_parser_fallback\<close>, which the client does not call, returns a dictionary with
  \<^verbatim>\<open>success\<close> and \<^verbatim>\<open>degraded\<close> true and with the raw text and a fixed message;
  it has no confidence entry.
\<close>

theorem exhausted_attempts_use_fallback_model:
  "(state (circuit_breaker c) = CLOSED \<and> 0 < retry_attempts c \<and>
    failure_count (circuit_breaker c) + retry_attempts c
      \<le> failure_threshold (circuit_breaker c) \<and>
    (\<forall>k < nat (retry_attempts c).
       \<exists>e. fst (env (calls w + k) prompt cfg) = Inl e \<and> transient e) \<longrightarrow>
      fst (call_with_retry sub env prompt cfg (c, w))
        = fst (env (calls w + nat (retry_attempts c)) prompt (fallback_config cfg))) \<and>
   (state (circuit_breaker c) = OPEN \<and> last_failure_time (circuit_breaker c) = Some t \<and>
    sub (clock w) t \<le> of_int (recovery_timeout (circuit_breaker c)) \<and> 0 < retry_attempts c \<longrightarrow>
      fst (call_with_retry sub env prompt cfg (c, w))
        = Inl (CircuitBreakerOpenException ''LLM service unavailable'')) \<and>
   (extract_plain_text file_content = Inr text \<longrightarrow>
      cv_parser_fallback extract_plain_text file_content =
        Inr (PyDict
          [(''success'', PyBool True), (''degraded'', PyBool True),
           (''data'', PyDict
              [(''raw_text'', PyStr text),
               (''message'', PyStr ''Limited parsing available - LLM service unavailable'')])])) \<and>
   (cv_parser_fallback extract_plain_text file_content = Inr d \<longrightarrow>
      py_get d ''degraded'' = Some (PyBool True) \<and> py_get d ''confidence'' = None)"
proof (intro conjI impI)
  assume h: "state (circuit_breaker c) = CLOSED \<and> 0 < retry_attempts c \<and>
    failure_count (circuit_breaker c) + retry_attempts c
      \<le> failure_threshold (circuit_breaker c) \<and>
    (\<forall>k < nat (retry_attempts c).
       \<exists>e. fst (env (calls w + k) prompt cfg) = Inl e \<and> transient e)"
  obtain r c' w' where e: "call_with_retry sub env prompt cfg (c, w) = (r, c', w')"
    by (metis prod_cases3)
  from h have h1: "state (circuit_breaker c) = CLOSED" and h2: "0 < retry_attempts c"
    and h3: "failure_count (circuit_breaker c) + retry_attempts c
      \<le> failure_threshold (circuit_breaker c)"
    and h4: "\<forall>k < nat (retry_attempts c).
       \<exists>e. fst (env (calls w + k) prompt cfg) = Inl e \<and> transient e" by blast+
  from all_primary_fail [OF h1 h2 h3 h4 e] e
  show "fst (call_with_retry sub env prompt cfg (c, w))
        = fst (env (calls w + nat (retry_attempts c)) prompt (fallback_config cfg))"
    by simp
next
  assume "state (circuit_breaker c) = OPEN \<and> last_failure_time (circuit_breaker c) = Some t \<and>
    sub (clock w) t \<le> of_int (recovery_timeout (circuit_breaker c)) \<and> 0 < retry_attempts c"
  then have "call_with_retry sub env prompt cfg (c, w) =
        (Inl (CircuitBreakerOpenException ''LLM service unavailable''), c, w)"
    by (intro call_with_retry_open [where c = c and t = t and w = w]) simp_all
  then show "fst (call_with_retry sub env prompt cfg (c, w))
        = Inl (CircuitBreakerOpenException ''LLM service unavailable'')" by simp
next
  assume "extract_plain_text file_content = Inr text"
  then show "cv_parser_fallback extract_plain_text file_content =
        Inr (PyDict
          [(''success'', PyBool True), (''degraded'', PyBool True),
           (''data'', PyDict
              [(''raw_text'', PyStr text),
               (''message'', PyStr ''Limited parsing available - LLM service unavailable'')])])"
    by (simp add: cv_parser_fallback_def)
next
  assume "cv_parser_fallback extract_plain_text file_content = Inr d"
  then show "py_get d ''degraded'' = Some (PyBool True)" and "py_get d ''confidence'' = None"
    by (auto simp: cv_parser_fallback_def split: sum.splits)
qed

text \<open>A new client whose primary model times out and whose fallback model answers; a client
  with an open breaker; the fallback dictionary for a text extracted as it is.\<close>

theorem exhausted_attempts_use_fallback_model_witness:
  "fst (call_with_retry (-) (env_fallback_answers ''{}'') ''prompt'' example_config
          (new_LLMClient 3 60, world0)) = Inr ''{}'' \<and>
   fst (call_with_retry (-) (env_answers ''{}'') ''prompt'' example_config
     (\<lparr>retry_attempts = 3, timeout = 60,
       circuit_breaker = \<lparr>failure_threshold = 5, recovery_timeout = 60, failure_count = 5,
                          last_failure_time = Some 5, state = OPEN\<rparr>\<rparr>,
      \<lparr>clock = 10, calls = 0, trace = []\<rparr>))
     = Inl (CircuitBreakerOpenException ''LLM service unavailable'') \<and>
   py_get (PyDict
          [(''success'', PyBool True), (''degraded'', PyBool True),
           (''data'', PyDict
              [(''raw_text'', PyStr ''Jane Doe''),
               (''message'', PyStr ''Limited parsing available - LLM service unavailable'')])])
      ''confidence'' = None \<and>
   cv_parser_fallback Inr ''Jane Doe'' =
        Inr (PyDict
          [(''success'', PyBool True), (''degraded'', PyBool True),
           (''data'', PyDict
              [(''raw_text'', PyStr ''Jane Doe''),
               (''message'', PyStr ''Limited parsing available - LLM service unavailable'')])])"
proof -
  let ?d = "PyDict
          [(''success'', PyBool True), (''degraded'', PyBool True),
           (''data'', PyDict
              [(''raw_text'', PyStr ''Jane Doe''),
               (''message'', PyStr ''Limited parsing available - LLM service unavailable'')])]"
  let ?c = "\<lparr>retry_attempts = 3, timeout = 60,
       circuit_breaker = \<lparr>failure_threshold = 5, recovery_timeout = 60, failure_count = 5,
                          last_failure_time = Some 5, state = OPEN\<rparr>\<rparr>"
  have a: "fst (call_with_retry (-) (env_fallback_answers ''{}'') ''prompt'' example_config
          (new_LLMClient 3 60, world0)) = Inr ''{}''"
    using exhausted_attempts_use_fallback_model
      [of "new_LLMClient 3 60" "env_fallback_answers ''{}''" world0 "''prompt''" example_config
          "(-)"]
    by (simp add: new_LLMClient_def new_CircuitBreaker_def world0_def
          env_fallback_answers_def example_config_def fallback_config_def)
  have b: "fst (call_with_retry (-) (env_answers ''{}'') ''prompt'' example_config
     (?c, \<lparr>clock = 10, calls = 0, trace = []\<rparr>))
     = Inl (CircuitBreakerOpenException ''LLM service unavailable'')"
    using exhausted_attempts_use_fallback_model
      [of ?c "env_answers ''{}''" "\<lparr>clock = 10, calls = 0, trace = []\<rparr>" "''prompt''"
          example_config "(-)" 5]
    by simp
  have c: "cv_parser_fallback Inr ''Jane Doe'' = Inr ?d"
    using exhausted_attempts_use_fallback_model [of _ _ _ _ _ _ _ Inr "''Jane Doe''" "''Jane Doe''"]
    by simp
  have d: "py_get ?d ''confidence'' = None"
    using exhausted_attempts_use_fallback_model [of _ _ _ _ _ _ _ Inr "''Jane Doe''" _ ?d] c
    by simp
  from a b c d show ?thesis by simp
qed

text \<open>The claim as stated fails: with all primary attempts exhausted, what the invocation
  returns for one and the same input is whatever the fallback model answers, and when
  that call fails too the invocation raises.\<close>

theorem exhausted_attempts_not_extractor_counterexample:
  "fst (call_with_retry (-) (env_fallback_answers ''A'') ''prompt'' example_config
          (new_LLMClient 3 60, world0)) = Inr ''A'' \<and>
   fst (call_with_retry (-) (env_fallback_answers ''B'') ''prompt'' example_config
          (new_LLMClient 3 60, world0)) = Inr ''B'' \<and>
   fst (call_with_retry (-) env_timeouts ''prompt'' example_config
          (new_LLMClient 3 60, world0)) = Inl TimeoutError"
  by (simp add: client_defs env_fallback_answers_def env_timeouts_def)

section \<open>The analytics queue\<close>

lemma flushEventQueue_conserves:
  "fst (flushEventQueue throws s) @ eventQueue (snd (flushEventQueue throws s)) = eventQueue s \<and>
   sessionId (snd (flushEventQueue throws s)) = sessionId s \<and>
   isOnline (snd (flushEventQueue throws s)) = isOnline s"
  by (simp add: flushEventQueue_def Let_def)

lemma trackEvent_conserves:
  "fst (trackEvent throws a s) @ eventQueue (snd (trackEvent throws a s))
     = eventQueue s @ [event_of (sessionId s) a] \<and>
   sessionId (snd (trackEvent throws a s)) = sessionId s"
  by (simp add: trackEvent_def flushEventQueue_def Let_def)

lemma analytics_step_conserves:
  "fst (analytics_step op s) @ eventQueue (snd (analytics_step op s))
     = eventQueue s @ tracked (sessionId s) [op] \<and>
   sessionId (snd (analytics_step op s)) = sessionId s"
proof (cases op)
  case (Track throws a)
  then show ?thesis using trackEvent_conserves [of throws a s] by simp
next
  case (Flush throws)
  then show ?thesis using flushEventQueue_conserves [of throws s] by simp
next
  case (GoOnline throws)
  then show ?thesis
    using flushEventQueue_conserves [of throws "s\<lparr>isOnline := True\<rparr>"] by simp
next
  case GoOffline
  then show ?thesis by simp
qed

lemma tracked_Cons: "tracked sid (op # ops) = tracked sid [op] @ tracked sid ops"
  by (cases op) simp_all

lemma run_analytics_conserves:
  "concat (fst (run_analytics ops s)) @ eventQueue (snd (run_analytics ops s))
     = eventQueue s @ tracked (sessionId s) ops"
proof (induction ops arbitrary: s)
  case Nil
  then show ?case by simp
next
  case (Cons op ops)
  obtain batch s1 where st: "analytics_step op s = (batch, s1)" by (cases "analytics_step op s")
  obtain batches s2 where r: "run_analytics ops s1 = (batches, s2)"
    by (cases "run_analytics ops s1")
  from analytics_step_conserves [of op s] st
  have 1: "batch @ eventQueue s1 = eventQueue s @ tracked (sessionId s) [op]"
    and sid: "sessionId s1 = sessionId s" by simp_all
  from Cons.IH [of s1] r sid
  have 2: "concat batches @ eventQueue s2 = eventQueue s1 @ tracked (sessionId s) ops" by simp
  have "concat (batch # batches) @ eventQueue s2 = batch @ (concat batches @ eventQueue s2)"
    by simp
  also have "\<dots> = (batch @ eventQueue s1) @ tracked (sessionId s) ops" using 2 by simp
  also have "\<dots> = eventQueue s @ tracked (sessionId s) (op # ops)"
    using 1 tracked_Cons [of "sessionId s" op ops] by simp
  finally show ?case using st r by simp
qed

text \<open>
  Claim C10. \<^verbatim>\<open>flushEventQueue\<close> changes nothing when the service is offline or the
  queue is empty; otherwise it takes the whole queue and leaves it empty, whether
  the delivery step throws or not. \<^verbatim>\<open>trackEvent\<close> appends one event and flushes
  exactly when the service is online and the queue, with the new event, holds at
  least five. Over any run, the batches taken, one after the other, followed by the
  queue that is left, are the events that were queued at the start followed by the
  events tracked, in order: every event leaves the queue at most once and none comes
  back.
\<close>

theorem flush_takes_each_event_once:
  "(\<not> isOnline s \<or> eventQueue s = [] \<longrightarrow> flushEventQueue throws s = ([], s)) \<and>
   (isOnline s \<and> eventQueue s \<noteq> [] \<longrightarrow>
      fst (flushEventQueue throws s) = eventQueue s \<and>
      eventQueue (snd (flushEventQueue throws s)) = []) \<and>
   eventQueue (snd (trackEvent throws a s)) =
     (if isOnline s \<and> 5 \<le> length (eventQueue s) + 1 then []
      else eventQueue s @ [event_of (sessionId s) a]) \<and>
   fst (trackEvent throws a s) =
     (if isOnline s \<and> 5 \<le> length (eventQueue s) + 1
      then eventQueue s @ [event_of (sessionId s) a] else []) \<and>
   concat (fst (run_analytics ops s)) @ eventQueue (snd (run_analytics ops s))
     = eventQueue s @ tracked (sessionId s) ops"
proof -
  have 1: "\<not> isOnline s \<or> eventQueue s = [] \<longrightarrow> flushEventQueue throws s = ([], s)"
    by (simp add: flushEventQueue_def)
  have 2: "isOnline s \<and> eventQueue s \<noteq> [] \<longrightarrow>
      fst (flushEventQueue throws s) = eventQueue s \<and>
      eventQueue (snd (flushEventQueue throws s)) = []"
    by (simp add: flushEventQueue_def Let_def)
  have 3: "eventQueue (snd (trackEvent throws a s)) =
     (if isOnline s \<and> 5 \<le> length (eventQueue s) + 1 then []
      else eventQueue s @ [event_of (sessionId s) a])"
    by (simp add: trackEvent_def flushEventQueue_def Let_def)
  have 4: "fst (trackEvent throws a s) =
     (if isOnline s \<and> 5 \<le> length (eventQueue s) + 1
      then eventQueue s @ [event_of (sessionId s) a] else [])"
    by (simp add: trackEvent_def flushEventQueue_def Let_def)
  from 1 2 3 4 run_analytics_conserves [of ops s] show ?thesis by blast
qed

text \<open>A service that goes offline, tracks a click, is flushed in vain, comes back online
  with a failing delivery, and tracks another click.\<close>

theorem flush_takes_each_event_once_witness:
  "flushEventQueue False
     (service0\<lparr>isOnline := False,
               eventQueue := [event_of (sessionId service0) (click_args ''upload'')]\<rparr>)
   = ([], service0\<lparr>isOnline := False,
                   eventQueue := [event_of (sessionId service0) (click_args ''upload'')]\<rparr>) \<and>
   flushEventQueue True
     (service0\<lparr>eventQueue := [event_of (sessionId service0) (click_args ''upload'')]\<rparr>)
   = ([event_of (sessionId service0) (click_args ''upload'')],
      service0\<lparr>eventQueue := [], console := [WarnFailed]\<rparr>) \<and>
   run_analytics
     [GoOffline, Track False (click_args ''upload''), Flush False, GoOnline True,
      Track False (click_args ''analyze'')] service0
   = ([[], [], [], [event_of (sessionId service0) (click_args ''upload'')], []],
      service0\<lparr>eventQueue := [event_of (sessionId service0) (click_args ''analyze'')],
               console := [LogEvent ''click'' ''button_click'' None, WarnFailed,
                           LogEvent ''click'' ''button_click'' None]\<rparr>)"
proof -
  let ?e1 = "event_of (sessionId service0) (click_args ''upload'')"
  let ?e2 = "event_of (sessionId service0) (click_args ''analyze'')"
  let ?ops = "[GoOffline, Track False (click_args ''upload''), Flush False, GoOnline True,
      Track False (click_args ''analyze'')]"
  have a: "flushEventQueue False (service0\<lparr>isOnline := False, eventQueue := [?e1]\<rparr>)
     = ([], service0\<lparr>isOnline := False, eventQueue := [?e1]\<rparr>)"
    using flush_takes_each_event_once
      [of "service0\<lparr>isOnline := False, eventQueue := [?e1]\<rparr>" False]
    by simp
  have b: "fst (flushEventQueue True (service0\<lparr>eventQueue := [?e1]\<rparr>)) = [?e1] \<and>
           eventQueue (snd (flushEventQueue True (service0\<lparr>eventQueue := [?e1]\<rparr>))) = []"
    using flush_takes_each_event_once [of "service0\<lparr>eventQueue := [?e1]\<rparr>" True]
    by (simp add: service0_def)
  have c: "concat (fst (run_analytics ?ops service0))
             @ eventQueue (snd (run_analytics ?ops service0)) = [?e1, ?e2]"
    using flush_takes_each_event_once [of service0 _ _ ?ops]
    by (simp add: service0_def)
  have d: "run_analytics ?ops service0
   = ([[], [], [], [?e1], []],
      service0\<lparr>eventQueue := [?e2],
               console := [LogEvent ''click'' ''button_click'' None, WarnFailed,
                           LogEvent ''click'' ''button_click'' None]\<rparr>)"
    by (simp add: trackEvent_def flushEventQueue_def Let_def service0_def click_args_def)
  have e: "flushEventQueue True (service0\<lparr>eventQueue := [?e1]\<rparr>)
   = ([?e1], service0\<lparr>eventQueue := [], console := [WarnFailed]\<rparr>)"
    by (simp add: flushEventQueue_def Let_def service0_def)
  from a b c d e show ?thesis by simp
qed

section \<open>Response processing and validation, as the specification describes them\<close>

lemma dropWhile_keep: "xs = [] \<or> \<not> P (hd xs) \<Longrightarrow> dropWhile P xs = xs"
  by (cases xs) auto

lemma last_dropWhile: "dropWhile P xs \<noteq> [] \<Longrightarrow> last (dropWhile P xs) = last xs"
  by (induction xs) (auto split: if_splits)

lemma trim_ends:
  "trim s = [] \<or> (\<not> is_space (hd (trim s)) \<and> \<not> is_space (last (trim s)))"
proof (cases "trim s = []")
  case True
  then show ?thesis by simp
next
  case False
  let ?d = "dropWhile is_space s"
  let ?e = "dropWhile is_space (rev ?d)"
  from False have e: "?e \<noteq> []" by (simp add: trim_def)
  then have d: "?d \<noteq> []" by (cases "?d = []") simp_all
  have "\<not> is_space (hd ?e)" using e hd_dropWhile by blast
  then have 1: "\<not> is_space (last (trim s))" using e by (simp add: trim_def last_rev)
  have "last ?e = last (rev ?d)" using e by (rule last_dropWhile)
  also have "\<dots> = hd ?d" using d by (simp add: last_rev)
  finally have "\<not> is_space (last ?e)" using d hd_dropWhile by metis
  then have 2: "\<not> is_space (hd (trim s))" using e by (simp add: trim_def hd_rev)
  from 1 2 show ?thesis by simp
qed

lemma trim_keep:
  assumes "s = [] \<or> (\<not> is_space (hd s) \<and> \<not> is_space (last s))"
  shows "trim s = s"
proof (cases "s = []")
  case True
  then show ?thesis by (simp add: trim_def)
next
  case False
  with assms have h: "\<not> is_space (hd s)" and l: "\<not> is_space (last s)" by simp_all
  from h have 1: "dropWhile is_space s = s" by (intro dropWhile_keep) simp
  from l False have "\<not> is_space (hd (rev s))" by (simp add: hd_rev)
  then have 2: "dropWhile is_space (rev s) = rev s" by (intro dropWhile_keep) simp
  from 1 2 show ?thesis by (simp add: trim_def)
qed

lemma trim_idem: "trim (trim s) = trim s"
  using trim_ends [of s] by (intro trim_keep) simp

lemma dropWhile_snoc_space:
  "P a \<Longrightarrow> dropWhile P (rev (dropWhile P (s @ [a]))) = dropWhile P (rev (dropWhile P s))"
proof (cases "\<forall>x \<in> set s. P x")
  case True
  assume "P a"
  with True have 1: "dropWhile P (s @ [a]) = []" and 2: "dropWhile P s = []"
    by (simp_all add: dropWhile_eq_Nil_conv)
  show ?thesis unfolding 1 2 by simp
next
  case False
  assume a: "P a"
  from False obtain x where "x \<in> set s" and "\<not> P x" by blast
  then have "dropWhile P (s @ [a]) = dropWhile P s @ [a]" by (rule dropWhile_append1)
  with a show ?thesis by simp
qed

lemma trim_Cons_space: "is_space a \<Longrightarrow> trim (a # s) = trim s"
  by (simp add: trim_def)

lemma trim_snoc_space: "is_space a \<Longrightarrow> trim (s @ [a]) = trim s"
  by (simp add: trim_def dropWhile_snoc_space)

lemma strip_wrapped: "strip_code_fences (wrap_json_fence j) = trim j"
proof -
  let ?nl = "CHR 0x0A"
  let ?w = "wrap_json_fence j"
  have sp: "is_space ?nl" by (simp add: is_space_def)
  have ne: "?w \<noteq> []" by (simp add: wrap_json_fence_def fence_def)
  have "hd ?w = CHR 0x60" by (simp add: wrap_json_fence_def fence_def)
  moreover have "last ?w = CHR 0x60" by (simp add: wrap_json_fence_def fence_def)
  ultimately have t: "trim ?w = ?w" by (intro trim_keep) (simp add: is_space_def)
  have p: "prefix (fence @ ''json'') ?w" by (simp add: wrap_json_fence_def)
  have d: "drop (length (fence @ ''json'')) ?w = ?nl # j @ [?nl] @ fence"
    by (simp add: wrap_json_fence_def)
  have s: "suffix fence (?nl # j @ [?nl] @ fence)"
    by (simp add: suffix_def)
  have k: "take (length (?nl # j @ [?nl] @ fence) - length fence) (?nl # j @ [?nl] @ fence)
             = ?nl # j @ [?nl]" by simp
  have "strip_code_fences ?w = trim (?nl # j @ [?nl])"
    unfolding strip_code_fences_def Let_def t using p d s k by simp
  also have "\<dots> = trim j"
    using sp trim_Cons_space [OF sp, of "j @ [?nl]"] trim_snoc_space [OF sp, of j] by simp
  finally show ?thesis .
qed

lemma strip_unwrapped:
  assumes "\<not> prefix fence (trim j)" and "\<not> suffix fence (trim j)"
  shows "strip_code_fences j = trim j"
proof -
  from assms(1) have "\<not> prefix (fence @ ''json'') (trim j)"
    using append_prefixD by blast
  with assms show ?thesis
    by (simp add: strip_code_fences_def Let_def trim_idem)
qed

text \<open>
  Claim C8. A JSON text begins with a brace, a bracket, a quote, a digit, a sign or a
  letter and ends in the same kind of character, never with backquotes. For every text
  that, white space aside, neither begins nor ends with a fence marker, processing the
  text wrapped in a fenced block tagged json gives what processing the text itself
  gives, whatever the parser is.
\<close>

theorem fenced_response_parses_alike:
  assumes "\<not> prefix fence (trim j)" and "\<not> suffix fence (trim j)"
  shows "process_response parse (wrap_json_fence j) = process_response parse j"
  using strip_wrapped [of j] strip_unwrapped [OF assms]
  by (simp add: process_response_def)

text \<open>A JSON array, with the parser that hands the cleaned text back.\<close>

theorem fenced_response_parses_alike_witness:
  "process_response Some (wrap_json_fence ''[1, 2]'') = Some ''[1, 2]'' \<and>
   process_response Some ''[1, 2]'' = Some ''[1, 2]''"
proof -
  have t: "trim ''[1, 2]'' = ''[1, 2]''" by (simp add: trim_def is_space_def)
  have h1: "\<not> prefix fence (trim ''[1, 2]'')" unfolding t by (simp add: fence_def)
  have h2: "\<not> suffix fence (trim ''[1, 2]'')" unfolding t
    by (simp add: fence_def suffix_def append_eq_Cons_conv)
  have v: "process_response Some ''[1, 2]'' = Some ''[1, 2]''"
    by (simp add: process_response_def strip_code_fences_def Let_def trim_def is_space_def
          fence_def suffix_def append_eq_Cons_conv)
  from fenced_response_parses_alike [OF h1 h2, of Some] v show ?thesis by simp
qed

lemma fill_missing_result:
  "fill_missing kind_of fs (obj, ns) = (obj', ns') \<Longrightarrow>
     (\<forall>f. obj' f = (if f \<in> set fs \<and> obj f = None then Some (empty_default (kind_of f))
                     else obj f)) \<and>
     set ns' = set ns \<union> missing_note ` {f \<in> set fs. obj f = None}"
proof (induction fs arbitrary: obj ns)
  case Nil
  then show ?case by simp
next
  case (Cons g fs)
  show ?case
  proof (cases "obj g")
    case (Some v)
    with Cons.prems have "fill_missing kind_of fs (obj, ns) = (obj', ns')" by simp
    from Cons.IH [OF this] Some show ?thesis by auto
  next
    case None
    let ?obj1 = "obj(g \<mapsto> empty_default (kind_of g))"
    from None Cons.prems
    have "fill_missing kind_of fs (?obj1, ns @ [missing_note g]) = (obj', ns')" by simp
    from Cons.IH [OF this]
    have 1: "\<forall>f. obj' f = (if f \<in> set fs \<and> ?obj1 f = None
                     then Some (empty_default (kind_of f)) else ?obj1 f)"
      and 2: "set ns' = set (ns @ [missing_note g])
                \<union> missing_note ` {f \<in> set fs. ?obj1 f = None}" by blast+
    from 1 None have a: "\<forall>f. obj' f = (if f \<in> set (g # fs) \<and> obj f = None
                     then Some (empty_default (kind_of f)) else obj f)" by auto
    have "{f \<in> set (g # fs). obj f = None} = insert g {f \<in> set fs. ?obj1 f = None}"
      using None by auto
    with 2 have b: "set ns' = set ns \<union> missing_note ` {f \<in> set (g # fs). obj f = None}"
      by auto
    from a b show ?thesis by blast
  qed
qed

lemma fields_present_le: "fields_present response required \<le> length required"
  by (simp add: fields_present_def)

text \<open>
  Claim C7. For a response and a required-field list that is not empty, validation
  yields a result in which every required field the response lacks holds the empty
  default of its kind and has its note among the parsing notes (and there are no
  other notes), every field of the response is kept, and the completeness score is
  the number of required fields the response has over the number of required fields,
  a value between 0 and 1.
\<close>

theorem missing_fields_filled_and_noted:
  "required \<noteq> [] \<longrightarrow>
     (\<exists>v. validate_response kind_of response required = Some v \<and>
        (\<forall>f \<in> set required. response f = None \<longrightarrow>
           result_fields v f = Some (empty_default (kind_of f)) \<and>
           missing_note f \<in> set (parsing_notes v)) \<and>
        (\<forall>f x. response f = Some x \<longrightarrow> result_fields v f = Some x) \<and>
        set (parsing_notes v) = missing_note ` {f \<in> set required. response f = None} \<and>
        completeness v
          = of_nat (fields_present response required) / of_nat (length required) \<and>
        0 \<le> completeness v \<and> completeness v \<le> 1)"
proof
  assume ne: "required \<noteq> []"
  obtain obj ns where f: "fill_missing kind_of required (response, []) = (obj, ns)"
    by (cases "fill_missing kind_of required (response, [])")
  let ?v = "\<lparr>result_fields = obj, parsing_notes = ns,
             completeness = of_nat (fields_present response required)
                              / of_nat (length required)\<rparr>"
  from ne f have v: "validate_response kind_of response required = Some ?v"
    by (simp add: validate_response_def)
  from fill_missing_result [OF f]
  have o: "\<forall>f. obj f = (if f \<in> set required \<and> response f = None
                     then Some (empty_default (kind_of f)) else response f)"
    and n: "set ns = missing_note ` {f \<in> set required. response f = None}" by simp_all
  have 1: "\<forall>f \<in> set required. response f = None \<longrightarrow>
           result_fields ?v f = Some (empty_default (kind_of f)) \<and>
           missing_note f \<in> set (parsing_notes ?v)"
    using o n by auto
  have 2: "\<forall>f x. response f = Some x \<longrightarrow> result_fields ?v f = Some x" using o by simp
  have 3: "set (parsing_notes ?v) = missing_note ` {f \<in> set required. response f = None}"
    using n by simp
  have len: "0 < length required" using ne by simp
  have 4: "0 \<le> completeness ?v" by simp
  have "(of_nat (fields_present response required) :: rat) \<le> of_nat (length required)"
    using fields_present_le [of response required] by (simp only: of_nat_le_iff)
  then have 5: "completeness ?v \<le> 1" using len by (simp add: divide_le_eq_1)
  from v 1 2 3 4 5 show "\<exists>v. validate_response kind_of response required = Some v \<and>
        (\<forall>f \<in> set required. response f = None \<longrightarrow>
           result_fields v f = Some (empty_default (kind_of f)) \<and>
           missing_note f \<in> set (parsing_notes v)) \<and>
        (\<forall>f x. response f = Some x \<longrightarrow> result_fields v f = Some x) \<and>
        set (parsing_notes v) = missing_note ` {f \<in> set required. response f = None} \<and>
        completeness v
          = of_nat (fields_present response required) / of_nat (length required) \<and>
        0 \<le> completeness v \<and> completeness v \<le> 1"
    by (intro exI [of _ ?v]) simp
qed

text \<open>A response with a name and without skills, both required.\<close>

theorem missing_fields_filled_and_noted_witness:
  "\<exists>v. validate_response (\<lambda>f. if f = ''skills'' then ListField else TextField)
          [''name'' \<mapsto> Text ''Jane Doe''] [''name'', ''skills''] = Some v \<and>
     result_fields v ''skills'' = Some (Items []) \<and>
     missing_note ''skills'' \<in> set (parsing_notes v) \<and>
     result_fields v ''name'' = Some (Text ''Jane Doe'') \<and>
     completeness v = 1 / 2"
proof -
  let ?K = "\<lambda>f. if f = ''skills'' then ListField else TextField"
  let ?R = "[''name'' \<mapsto> Text ''Jane Doe'']"
  let ?req = "[''name'', ''skills'']"
  have ne: "?req \<noteq> []" by simp
  with missing_fields_filled_and_noted [of ?req ?K ?R] obtain v where
    e: "validate_response ?K ?R ?req = Some v"
    and m: "\<forall>f \<in> set ?req. ?R f = None \<longrightarrow>
           result_fields v f = Some (empty_default (?K f)) \<and>
           missing_note f \<in> set (parsing_notes v)"
    and p: "\<forall>f x. ?R f = Some x \<longrightarrow> result_fields v f = Some x"
    and c: "completeness v = of_nat (fields_present ?R ?req) / of_nat (length ?req)"
    by blast
  have "''skills'' \<in> set ?req" and "?R ''skills'' = None" by simp_all
  with m have 1: "result_fields v ''skills'' = Some (empty_default (?K ''skills''))"
    and 2: "missing_note ''skills'' \<in> set (parsing_notes v)" by blast+
  have "?R ''name'' = Some (Text ''Jane Doe'')" by simp
  with p have 3: "result_fields v ''name'' = Some (Text ''Jane Doe'')" by blast
  from c have 4: "completeness v = 1 / 2" by (simp add: fields_present_def)
  from e 1 2 3 4 show ?thesis by simp
qed

end
